theory Spec2Isabelle
  imports Main "HOL-Library.AList" "HOL-Library.Sublist"
begin

section \<open>Settings merge of install.py\<close>

subsection \<open>Values\<close>

text \<open>
  The settings documents are what \<^verbatim>\<open>json.loads\<close> returns and what the managers
  build: \<^verbatim>\<open>None\<close>, booleans, numbers, strings, lists and dicts with string keys.
  A dict is an association list in insertion order (Python dicts iterate in insertion
  order); a well-formed dict has distinct keys. Numbers are integers here; floats are
  not modelled.
\<close>

datatype json =
    JNull
  | JBool bool
  | JNum int
  | JStr string
  | JArr "json list"
  | JObj "(string \<times> json) list"

type_synonym dict = "(string \<times> json) list"

datatype py_error = AttributeError | TypeError | KeyError string

subsection \<open>The Python operations the merge uses\<close>

text \<open>\<^verbatim>\<open>x.items()\<close>: only a dict has the method.\<close>

fun py_items :: "json \<Rightarrow> py_error + dict" where
  "py_items (JObj kvs) = Inr kvs"
| "py_items _ = Inl AttributeError"

text \<open>
  Iterating a value, as \<^verbatim>\<open>list.extend\<close> and \<^verbatim>\<open>dict.fromkeys\<close> do with their
  argument: a list gives its elements, a string its characters (one-character strings),
  a dict its keys; anything else is not iterable.
\<close>

fun py_iter :: "json \<Rightarrow> py_error + json list" where
  "py_iter (JArr xs) = Inr xs"
| "py_iter (JStr s) = Inr (map (\<lambda>c. JStr [c]) s)"
| "py_iter (JObj kvs) = Inr (map (\<lambda>kv. JStr (fst kv)) kvs)"
| "py_iter _ = Inl TypeError"

text \<open>
  Members of a set and keys of a dict must be hashable (lists and dicts are not), and
  are compared with \<^verbatim>\<open>==\<close>, for which \<^verbatim>\<open>True == 1\<close> and \<^verbatim>\<open>False == 0\<close>:
  \<open>py_key\<close> maps a hashable value to the representative of its class.
\<close>

fun hashable :: "json \<Rightarrow> bool" where
  "hashable (JArr _) = False"
| "hashable (JObj _) = False"
| "hashable _ = True"

fun py_key :: "json \<Rightarrow> json" where
  "py_key (JBool b) = JNum (if b then 1 else 0)"
| "py_key v = v"

text \<open>\<^verbatim>\<open>x.get(k, default)\<close>: only a dict has the method.\<close>

fun py_get :: "json \<Rightarrow> string \<Rightarrow> json \<Rightarrow> py_error + json" where
  "py_get (JObj kvs) k d = Inr (case map_of kvs k of None \<Rightarrow> d | Some v \<Rightarrow> v)"
| "py_get _ k d = Inl AttributeError"

text \<open>
  \<^verbatim>\<open>d[k].extend(v)\<close> on a dict of lists: the lookup fails on a missing key, then
  the argument is iterated.
\<close>

definition extend_at ::
    "(string \<times> json list) list \<Rightarrow> string \<Rightarrow> json \<Rightarrow> py_error + (string \<times> json list) list" where
  "extend_at d k v =
     (case map_of d k of
        None \<Rightarrow> Inl (KeyError k)
      | Some xs \<Rightarrow>
          (case py_iter v of
             Inl e \<Rightarrow> Inl e
           | Inr ys \<Rightarrow> Inr (AList.update k (xs @ ys) d)))"

text \<open>\<^verbatim>\<open>list(dict.fromkeys(xs))\<close>: the first of each class of equal keys, in order.\<close>

fun fromkeys :: "json list \<Rightarrow> json list \<Rightarrow> py_error + json list" where
  "fromkeys ks [] = Inr ks"
| "fromkeys ks (x # xs) =
     (if \<not> hashable x then Inl TypeError
      else if py_key x \<in> py_key ` set ks then fromkeys ks xs
      else fromkeys (ks @ [x]) xs)"

subsection \<open>dedupe_hooks\<close>

fun dedupe_loop :: "json set \<Rightarrow> json list \<Rightarrow> json list \<Rightarrow> py_error + json list" where
  "dedupe_loop seen result [] = Inr result"
| "dedupe_loop seen result (hook # hook_list) =
     (case py_get hook ''command'' (JStr '''') of
        Inl e \<Rightarrow> Inl e
      | Inr key \<Rightarrow>
          if \<not> hashable key then Inl TypeError
          else if py_key key \<notin> seen
            then dedupe_loop (insert (py_key key) seen) (result @ [hook]) hook_list
            else dedupe_loop seen result hook_list)"

definition dedupe_hooks :: "json list \<Rightarrow> py_error + json list" where
  "dedupe_hooks hook_list = dedupe_loop {} [] hook_list"

subsection \<open>merge_settings: folding the documents\<close>

text \<open>
  The dict \<^verbatim>\<open>result\<close>. Its value under \<^verbatim>\<open>'hooks'\<close> is a dict of lists that only
  the hooks branch touches, and its value under \<^verbatim>\<open>'permissions'\<close> a dict of lists that
  only the permissions branch touches: they are the fields \<open>result_hooks\<close> and
  \<open>result_permissions\<close>, and \<open>result\<close> holds \<open>JNull\<close> at the two keys to keep
  their place in the insertion order. \<open>to_json\<close> puts them back.
\<close>

record merge_state =
  result :: dict
  result_hooks :: "(string \<times> json list) list"
  result_permissions :: "(string \<times> json list) list"

definition empty_state :: merge_state where
  "empty_state = \<lparr>result = [], result_hooks = [], result_permissions = []\<rparr>"

definition has_key :: "string \<Rightarrow> (string \<times> 'v) list \<Rightarrow> bool" where
  "has_key k d = (k \<in> fst ` set d)"

fun merge_hook_types ::
    "(string \<times> json list) list \<Rightarrow> dict \<Rightarrow> py_error + (string \<times> json list) list" where
  "merge_hook_types h [] = Inr h"
| "merge_hook_types h ((hook_type, hook_list) # rest) =
     (case extend_at (if has_key hook_type h then h else AList.update hook_type [] h)
             hook_type hook_list of
        Inl e \<Rightarrow> Inl e
      | Inr h' \<Rightarrow> merge_hook_types h' rest)"

fun merge_perm_types ::
    "(string \<times> json list) list \<Rightarrow> dict \<Rightarrow> py_error + (string \<times> json list) list" where
  "merge_perm_types p [] = Inr p"
| "merge_perm_types p ((perm_type, perm_list) # rest) =
     (case extend_at p perm_type perm_list of
        Inl e \<Rightarrow> Inl e
      | Inr p' \<Rightarrow> merge_perm_types p' rest)"

fun merge_item :: "merge_state \<Rightarrow> string \<times> json \<Rightarrow> py_error + merge_state" where
  "merge_item st (key, val) =
     (if key = ''hooks'' then
        (let st1 = (if has_key ''hooks'' (result st) then st
                    else st\<lparr>result := AList.update ''hooks'' JNull (result st),
                            result_hooks := []\<rparr>)
         in case py_items val of
              Inl e \<Rightarrow> Inl e
            | Inr its \<Rightarrow>
                (case merge_hook_types (result_hooks st1) its of
                   Inl e \<Rightarrow> Inl e
                 | Inr h \<Rightarrow> Inr (st1\<lparr>result_hooks := h\<rparr>)))
      else if key = ''permissions'' then
        (let st1 = (if has_key ''permissions'' (result st) then st
                    else st\<lparr>result := AList.update ''permissions'' JNull (result st),
                            result_permissions :=
                              [(''allow'', []), (''deny'', []), (''ask'', [])]\<rparr>)
         in case py_items val of
              Inl e \<Rightarrow> Inl e
            | Inr its \<Rightarrow>
                (case merge_perm_types (result_permissions st1) its of
                   Inl e \<Rightarrow> Inl e
                 | Inr p \<Rightarrow> Inr (st1\<lparr>result_permissions := p\<rparr>)))
      else Inr (st\<lparr>result := AList.update key val (result st)\<rparr>))"

fun merge_items :: "merge_state \<Rightarrow> dict \<Rightarrow> py_error + merge_state" where
  "merge_items st [] = Inr st"
| "merge_items st (kv # rest) =
     (case merge_item st kv of
        Inl e \<Rightarrow> Inl e
      | Inr st' \<Rightarrow> merge_items st' rest)"

fun merge_dicts :: "merge_state \<Rightarrow> json list \<Rightarrow> py_error + merge_state" where
  "merge_dicts st [] = Inr st"
| "merge_dicts st (settings # rest) =
     (case py_items settings of
        Inl e \<Rightarrow> Inl e
      | Inr its \<Rightarrow>
          (case merge_items st its of
             Inl e \<Rightarrow> Inl e
           | Inr st' \<Rightarrow> merge_dicts st' rest))"

subsection \<open>merge_settings: deduplicating the result\<close>

text \<open>
  \<^verbatim>\<open>by_matcher\<close> is a dict whose keys are the matchers, any hashable value: a list of
  pairs in insertion order, looked up through \<open>py_key\<close>.
\<close>

definition matcher_in :: "json \<Rightarrow> (json \<times> json list) list \<Rightarrow> bool" where
  "matcher_in m by_matcher = (py_key m \<in> (\<lambda>p. py_key (fst p)) ` set by_matcher)"

fun matcher_extend ::
    "json \<Rightarrow> json list \<Rightarrow> (json \<times> json list) list \<Rightarrow> (json \<times> json list) list" where
  "matcher_extend m ys [] = []"
| "matcher_extend m ys (p # ps) =
     (if py_key (fst p) = py_key m then (fst p, snd p @ ys) # ps
      else p # matcher_extend m ys ps)"

fun group_by_matcher ::
    "(json \<times> json list) list \<Rightarrow> json list \<Rightarrow> py_error + (json \<times> json list) list" where
  "group_by_matcher by_matcher [] = Inr by_matcher"
| "group_by_matcher by_matcher (entry # rest) =
     (case py_get entry ''matcher'' (JStr '''') of
        Inl e \<Rightarrow> Inl e
      | Inr matcher \<Rightarrow>
          if \<not> hashable matcher then Inl TypeError
          else
            (case py_get entry ''hooks'' (JArr []) of
               Inl e \<Rightarrow> Inl e
             | Inr hs \<Rightarrow>
                 (case py_iter hs of
                    Inl e \<Rightarrow> Inl e
                  | Inr ys \<Rightarrow>
                      group_by_matcher
                        (matcher_extend matcher ys
                           (if matcher_in matcher by_matcher then by_matcher
                            else by_matcher @ [(matcher, [])]))
                        rest)))"

fun rebuild :: "(json \<times> json list) list \<Rightarrow> py_error + json list" where
  "rebuild [] = Inr []"
| "rebuild ((matcher, hooks) # rest) =
     (case dedupe_hooks hooks of
        Inl e \<Rightarrow> Inl e
      | Inr hs \<Rightarrow>
          (case rebuild rest of
             Inl e \<Rightarrow> Inl e
           | Inr gs \<Rightarrow> Inr (JObj [(''matcher'', matcher), (''hooks'', JArr hs)] # gs)))"

fun dedupe_hook_types ::
    "(string \<times> json list) list \<Rightarrow> py_error + (string \<times> json list) list" where
  "dedupe_hook_types [] = Inr []"
| "dedupe_hook_types ((hook_type, entries) # rest) =
     (case group_by_matcher [] entries of
        Inl e \<Rightarrow> Inl e
      | Inr by_matcher \<Rightarrow>
          (case rebuild by_matcher of
             Inl e \<Rightarrow> Inl e
           | Inr gs \<Rightarrow>
               (case dedupe_hook_types rest of
                  Inl e \<Rightarrow> Inl e
                | Inr rest' \<Rightarrow> Inr ((hook_type, gs) # rest'))))"

fun dedupe_perm_types ::
    "(string \<times> json list) list \<Rightarrow> py_error + (string \<times> json list) list" where
  "dedupe_perm_types [] = Inr []"
| "dedupe_perm_types ((perm_type, perms) # rest) =
     (case fromkeys [] perms of
        Inl e \<Rightarrow> Inl e
      | Inr ps \<Rightarrow>
          (case dedupe_perm_types rest of
             Inl e \<Rightarrow> Inl e
           | Inr rest' \<Rightarrow> Inr ((perm_type, ps) # rest')))"

definition dedupe_state :: "merge_state \<Rightarrow> py_error + merge_state" where
  "dedupe_state st =
     (case (if has_key ''hooks'' (result st) then dedupe_hook_types (result_hooks st)
            else Inr (result_hooks st)) of
        Inl e \<Rightarrow> Inl e
      | Inr h \<Rightarrow>
          (case (if has_key ''permissions'' (result st)
                 then dedupe_perm_types (result_permissions st)
                 else Inr (result_permissions st)) of
             Inl e \<Rightarrow> Inl e
           | Inr p \<Rightarrow> Inr (st\<lparr>result_hooks := h, result_permissions := p\<rparr>)))"

definition lists_json :: "(string \<times> json list) list \<Rightarrow> json" where
  "lists_json d = JObj (map (\<lambda>kv. (fst kv, JArr (snd kv))) d)"

definition to_json :: "merge_state \<Rightarrow> json" where
  "to_json st =
     JObj (map (\<lambda>kv. if fst kv = ''hooks'' then (fst kv, lists_json (result_hooks st))
                     else if fst kv = ''permissions''
                       then (fst kv, lists_json (result_permissions st))
                     else kv)
             (result st))"

definition merge_settings :: "json list \<Rightarrow> py_error + json" where
  "merge_settings settings_dicts =
     (case merge_dicts empty_state settings_dicts of
        Inl e \<Rightarrow> Inl e
      | Inr st \<Rightarrow>
          (case dedupe_state st of
             Inl e \<Rightarrow> Inl e
           | Inr st' \<Rightarrow> Inr (to_json st')))"

text \<open>
  \<^verbatim>\<open>update_settings_file\<close>, without the file: the existing document (the empty dict
  when there is no file) merged with the new settings.
\<close>

definition update_settings_file :: "json option \<Rightarrow> json \<Rightarrow> py_error + json" where
  "update_settings_file existing new_settings =
     merge_settings [case existing of None \<Rightarrow> JObj [] | Some d \<Rightarrow> d, new_settings]"

section \<open>What the merge computes\<close>

text \<open>
  The functions of this section state the result of the merge in closed form, as the
  design describes it; the theorems below relate \<open>merge_settings\<close> to them.
\<close>

subsection \<open>Reading values\<close>

definition dict_of :: "json \<Rightarrow> dict" where
  "dict_of v = (case v of JObj kvs \<Rightarrow> kvs | _ \<Rightarrow> [])"

definition py_elems :: "json \<Rightarrow> json list" where
  "py_elems v = (case py_iter v of Inr xs \<Rightarrow> xs | Inl _ \<Rightarrow> [])"

definition get_or :: "json \<Rightarrow> string \<Rightarrow> json \<Rightarrow> json" where
  "get_or v k d = (case map_of (dict_of v) k of None \<Rightarrow> d | Some x \<Rightarrow> x)"

definition lookup :: "json \<Rightarrow> string \<Rightarrow> json option" where
  "lookup v k = map_of (dict_of v) k"

definition command_key :: "json \<Rightarrow> json" where
  "command_key hook = py_key (get_or hook ''command'' (JStr ''''))"

definition matcher_of :: "json \<Rightarrow> json" where
  "matcher_of entry = get_or entry ''matcher'' (JStr '''')"

definition matcher_key :: "json \<Rightarrow> json" where
  "matcher_key entry = py_key (matcher_of entry)"

definition hooks_of :: "json \<Rightarrow> json list" where
  "hooks_of entry = py_elems (get_or entry ''hooks'' (JArr []))"

subsection \<open>First occurrences\<close>

text \<open>
  \<open>firsts f S xs\<close> keeps, in order, each element of \<open>xs\<close> whose key \<open>f x\<close> is
  neither in \<open>S\<close> nor the key of an earlier element.
\<close>

fun firsts :: "('a \<Rightarrow> 'k) \<Rightarrow> 'k set \<Rightarrow> 'a list \<Rightarrow> 'a list" where
  "firsts f S [] = []"
| "firsts f S (x # xs) =
     (if f x \<in> S then firsts f S xs else x # firsts f (insert (f x) S) xs)"

subsection \<open>The merged document\<close>

text \<open>
  The entries of a hook type's list with the matcher \<open>m\<close>, their hooks concatenated
  and the first hook of each command kept; one group for the first entry of each matcher.
\<close>

definition gathered_hooks :: "json \<Rightarrow> json list \<Rightarrow> json list" where
  "gathered_hooks m entries =
     concat (map hooks_of (filter (\<lambda>e. matcher_key e = py_key m) entries))"

definition group_spec :: "json list \<Rightarrow> json list" where
  "group_spec entries =
     map (\<lambda>g. JObj [(''matcher'', matcher_of g),
                     (''hooks'', JArr (firsts command_key {}
                                        (gathered_hooks (matcher_of g) entries)))])
       (firsts matcher_key {} entries)"

text \<open>
  \<open>section_items k its\<close>: the items of every dict stored under the top-level key
  \<open>k\<close>, in arrival order; \<open>arrivals t sits\<close>: the elements of every list stored under
  \<open>t\<close> in such items, in arrival order.
\<close>

definition section_items :: "string \<Rightarrow> dict \<Rightarrow> dict" where
  "section_items k its = concat (map (\<lambda>kv. dict_of (snd kv)) (filter (\<lambda>kv. fst kv = k) its))"

definition arrivals :: "string \<Rightarrow> dict \<Rightarrow> json list" where
  "arrivals t sits = concat (map (\<lambda>kv. py_elems (snd kv)) (filter (\<lambda>kv. fst kv = t) sits))"

definition all_items :: "json list \<Rightarrow> dict" where
  "all_items docs = concat (map dict_of docs)"

definition hook_types :: "json list \<Rightarrow> string list" where
  "hook_types docs = firsts id {} (map fst (section_items ''hooks'' (all_items docs)))"

definition hook_entries :: "string \<Rightarrow> json list \<Rightarrow> json list" where
  "hook_entries t docs = arrivals t (section_items ''hooks'' (all_items docs))"

definition perm_entries :: "string \<Rightarrow> json list \<Rightarrow> json list" where
  "perm_entries t docs = arrivals t (section_items ''permissions'' (all_items docs))"

definition hooks_spec :: "json list \<Rightarrow> json" where
  "hooks_spec docs =
     JObj (map (\<lambda>t. (t, JArr (group_spec (hook_entries t docs)))) (hook_types docs))"

definition perms_spec :: "json list \<Rightarrow> json" where
  "perms_spec docs =
     JObj (map (\<lambda>t. (t, JArr (firsts py_key {} (perm_entries t docs))))
             [''allow'', ''deny'', ''ask''])"

definition last_value :: "string \<Rightarrow> json list \<Rightarrow> json" where
  "last_value k docs = (case map_of (rev (all_items docs)) k of None \<Rightarrow> JNull | Some v \<Rightarrow> v)"

definition merge_spec :: "json list \<Rightarrow> json" where
  "merge_spec docs =
     JObj (map (\<lambda>k. (k, if k = ''hooks'' then hooks_spec docs
                        else if k = ''permissions'' then perms_spec docs
                        else last_value k docs))
             (firsts id {} (map fst (all_items docs))))"

subsection \<open>Valid documents\<close>

text \<open>
  The shape of the data model: \<open>hooks\<close> maps hook types to lists of matcher groups, a
  matcher group has a string \<open>matcher\<close> and a list \<open>hooks\<close> of entries, an entry has a
  string \<open>command\<close>; \<open>permissions\<close> maps \<open>allow\<close>, \<open>deny\<close> and \<open>ask\<close> to
  lists of strings. Every key is optional (a sparse document is valid), and the dicts
  that the merge iterates have distinct keys.
\<close>

definition is_str :: "json \<Rightarrow> bool" where
  "is_str v = (case v of JStr _ \<Rightarrow> True | _ \<Rightarrow> False)"

definition valid_entry :: "json \<Rightarrow> bool" where
  "valid_entry h =
     (case h of
        JObj kvs \<Rightarrow> (case map_of kvs ''command'' of None \<Rightarrow> True | Some c \<Rightarrow> is_str c)
      | _ \<Rightarrow> False)"

definition valid_group :: "json \<Rightarrow> bool" where
  "valid_group g =
     (case g of
        JObj kvs \<Rightarrow>
          (case map_of kvs ''matcher'' of None \<Rightarrow> True | Some m \<Rightarrow> is_str m) \<and>
          (case map_of kvs ''hooks'' of
             None \<Rightarrow> True
           | Some (JArr hs) \<Rightarrow> list_all valid_entry hs
           | Some _ \<Rightarrow> False)
      | _ \<Rightarrow> False)"

definition valid_hook_list :: "json \<Rightarrow> bool" where
  "valid_hook_list l = (case l of JArr gs \<Rightarrow> list_all valid_group gs | _ \<Rightarrow> False)"

definition valid_hooks :: "json \<Rightarrow> bool" where
  "valid_hooks v =
     (case v of
        JObj hs \<Rightarrow> distinct (map fst hs) \<and> list_all (\<lambda>kv. valid_hook_list (snd kv)) hs
      | _ \<Rightarrow> False)"

definition valid_perm_list :: "json \<Rightarrow> bool" where
  "valid_perm_list l = (case l of JArr ps \<Rightarrow> list_all is_str ps | _ \<Rightarrow> False)"

definition known_perm_type :: "string \<Rightarrow> bool" where
  "known_perm_type t = (t \<in> {''allow'', ''deny'', ''ask''})"

definition shaped_permissions :: "json \<Rightarrow> bool" where
  "shaped_permissions v =
     (case v of
        JObj ps \<Rightarrow> distinct (map fst ps) \<and> list_all (\<lambda>kv. valid_perm_list (snd kv)) ps
      | _ \<Rightarrow> False)"

definition valid_permissions :: "json \<Rightarrow> bool" where
  "valid_permissions v =
     (shaped_permissions v \<and> list_all (\<lambda>kv. known_perm_type (fst kv)) (dict_of v))"

definition valid_item :: "string \<times> json \<Rightarrow> bool" where
  "valid_item kv =
     ((fst kv = ''hooks'' \<longrightarrow> valid_hooks (snd kv)) \<and>
      (fst kv = ''permissions'' \<longrightarrow> valid_permissions (snd kv)))"

definition valid_doc :: "json \<Rightarrow> bool" where
  "valid_doc d =
     (case d of
        JObj kvs \<Rightarrow> distinct (map fst kvs) \<and> list_all valid_item kvs
      | _ \<Rightarrow> False)"

text \<open>
  A shaped document is a valid one, except that its \<open>permissions\<close> may have keys
  other than \<open>allow\<close>, \<open>deny\<close> and \<open>ask\<close>.
\<close>

definition shaped_item :: "string \<times> json \<Rightarrow> bool" where
  "shaped_item kv =
     ((fst kv = ''hooks'' \<longrightarrow> valid_hooks (snd kv)) \<and>
      (fst kv = ''permissions'' \<longrightarrow> shaped_permissions (snd kv)))"

definition shaped_doc :: "json \<Rightarrow> bool" where
  "shaped_doc d =
     (case d of
        JObj kvs \<Rightarrow> distinct (map fst kvs) \<and> list_all shaped_item kvs
      | _ \<Rightarrow> False)"

subsection \<open>Accumulating lists under keys\<close>

text \<open>
  One step of a dict of lists that appends \<open>snd x\<close> under the key \<open>fst x\<close>, creating
  the key at the end when it is new; keys are compared through \<open>key\<close>. \<open>gath\<close>
  concatenates what arrives under one key.
\<close>

definition acc_step :: "('a \<Rightarrow> 'k) \<Rightarrow> ('a \<times> 'v list) list \<Rightarrow> 'a \<times> 'v list \<Rightarrow> ('a \<times> 'v list) list" where
  "acc_step key bm x =
     (if key (fst x) \<in> (\<lambda>p. key (fst p)) ` set bm
      then map (\<lambda>p. if key (fst p) = key (fst x) then (fst p, snd p @ snd x) else p) bm
      else bm @ [x])"

definition gath :: "('a \<Rightarrow> 'k) \<Rightarrow> 'k \<Rightarrow> ('a \<times> 'v list) list \<Rightarrow> 'v list" where
  "gath key k xs = concat (map snd (filter (\<lambda>x. key (fst x) = k) xs))"

definition elems_item :: "string \<times> json \<Rightarrow> string \<times> json list" where
  "elems_item kv = (fst kv, py_elems (snd kv))"

text \<open>
  The dicts \<^verbatim>\<open>result['hooks']\<close> and \<^verbatim>\<open>result['permissions']\<close> as they are, or
  as they will be created when the key is not yet in \<^verbatim>\<open>result\<close>.
\<close>

definition current_hooks :: "merge_state \<Rightarrow> (string \<times> json list) list" where
  "current_hooks st = (if has_key ''hooks'' (result st) then result_hooks st else [])"

definition current_permissions :: "merge_state \<Rightarrow> (string \<times> json list) list" where
  "current_permissions st =
     (if has_key ''permissions'' (result st) then result_permissions st
      else [(''allow'', []), (''deny'', []), (''ask'', [])])"

text \<open>What one item does to the keys and the opaque values of \<^verbatim>\<open>result\<close>.\<close>

definition top_step :: "dict \<Rightarrow> string \<times> json \<Rightarrow> dict" where
  "top_step r kv =
     (if fst kv = ''hooks'' \<or> fst kv = ''permissions''
      then (if has_key (fst kv) r then r else AList.update (fst kv) JNull r)
      else AList.update (fst kv) (snd kv) r)"

text \<open>The first item of a \<open>permissions\<close> dict whose key the merge does not know.\<close>

definition first_unknown :: "dict \<Rightarrow> (string \<times> json) option" where
  "first_unknown its =
     find (\<lambda>q. \<not> known_perm_type (fst q)) (section_items ''permissions'' its)"

text \<open>A hook entry with no \<open>command\<close>, or with the empty string as its \<open>command\<close>.\<close>

definition blank_command :: "json \<Rightarrow> bool" where
  "blank_command h = (case lookup h ''command'' of None \<Rightarrow> True | Some c \<Rightarrow> c = JStr '''')"

text \<open>
  \<open>rs\<close> keeps the first hook of each command of \<open>hs\<close>: no command twice, the order
  of \<open>hs\<close>, every command of \<open>hs\<close>, and each hook kept is the first of \<open>hs\<close> with
  its command (the whole entry, with all of its fields).
\<close>

definition first_of_each_command :: "json list \<Rightarrow> json list \<Rightarrow> bool" where
  "first_of_each_command rs hs =
     (distinct (map command_key rs) \<and> subseq rs hs \<and>
      command_key ` set rs = command_key ` set hs \<and>
      (\<forall>x\<in>set rs. find (\<lambda>y. command_key y = command_key x) hs = Some x))"

text \<open>
  At most one hook of \<open>rs\<close> has a blank command, and it is the first hook of \<open>hs\<close>
  with a blank command, which there is when \<open>hs\<close> has one.
\<close>

definition one_blank_command :: "json list \<Rightarrow> json list \<Rightarrow> bool" where
  "one_blank_command rs hs =
     (length (filter blank_command rs) \<le> 1 \<and>
      (\<forall>x\<in>set rs. blank_command x \<longrightarrow> find blank_command hs = Some x) \<and>
      (list_ex blank_command hs \<longrightarrow> list_ex blank_command rs))"

definition is_dict :: "json \<Rightarrow> bool" where
  "is_dict v = (case v of JObj _ \<Rightarrow> True | _ \<Rightarrow> False)"

text \<open>Some document's \<open>permissions\<close> dict has a key other than the three known ones.\<close>

definition unknown_perm_type_in :: "json list \<Rightarrow> bool" where
  "unknown_perm_type_in docs =
     list_ex (\<lambda>d. case lookup d ''permissions'' of
                     None \<Rightarrow> False
                   | Some p \<Rightarrow> list_ex (\<lambda>kv. \<not> known_perm_type (fst kv)) (dict_of p)) docs"

text \<open>
  Some document is not a dict, or holds under \<open>hooks\<close> or \<open>permissions\<close> a value
  that is not a dict.
\<close>

definition section_not_dict_in :: "json list \<Rightarrow> bool" where
  "section_not_dict_in docs =
     list_ex (\<lambda>d. \<not> is_dict d \<or>
                   list_ex (\<lambda>kv. (fst kv = ''hooks'' \<or> fst kv = ''permissions'') \<and>
                                  \<not> is_dict (snd kv)) (dict_of d)) docs"

text \<open>A document without its unrecognized top-level keys.\<close>

definition known_key :: "string \<times> json \<Rightarrow> bool" where
  "known_key kv = (fst kv = ''hooks'' \<or> fst kv = ''permissions'')"

definition known_only :: "json \<Rightarrow> json" where
  "known_only d = (case d of JObj kvs \<Rightarrow> JObj (filter known_key kvs) | _ \<Rightarrow> d)"

text \<open>Two states of the fold that agree on the two sections.\<close>

definition same_sections :: "merge_state \<Rightarrow> merge_state \<Rightarrow> bool" where
  "same_sections st st' =
     (has_key ''hooks'' (result st) = has_key ''hooks'' (result st') \<and>
      has_key ''permissions'' (result st) = has_key ''permissions'' (result st') \<and>
      result_hooks st = result_hooks st' \<and>
      result_permissions st = result_permissions st')"

text \<open>The last document that has the key \<open>k\<close>.\<close>

definition last_with_key :: "string \<Rightarrow> json list \<Rightarrow> json option" where
  "last_with_key k docs = find (\<lambda>d. lookup d k \<noteq> None) (rev docs)"

subsection \<open>Canonical documents\<close>

text \<open>
  A document in the form in which the merge writes it: a matcher group is a dict of
  \<open>matcher\<close> and \<open>hooks\<close>, with one hook for each command; the list of a hook type has
  one group for each matcher; \<open>permissions\<close> has the keys \<open>allow\<close>, \<open>deny\<close> and
  \<open>ask\<close>, each with a list of strings without duplicates. The keys of a matcher group
  and of \<open>permissions\<close> stand in the order in which the document is written to the file.
\<close>

definition canonical_group :: "json \<Rightarrow> bool" where
  "canonical_group g =
     (g = JObj [(''matcher'', matcher_of g), (''hooks'', JArr (hooks_of g))] \<and>
      is_str (matcher_of g) \<and> list_all valid_entry (hooks_of g) \<and>
      distinct (map command_key (hooks_of g)))"

definition canonical_hook_list :: "json \<Rightarrow> bool" where
  "canonical_hook_list l =
     (case l of
        JArr gs \<Rightarrow> list_all canonical_group gs \<and> distinct (map matcher_key gs)
      | _ \<Rightarrow> False)"

definition canonical_hooks :: "json \<Rightarrow> bool" where
  "canonical_hooks v =
     (case v of
        JObj hs \<Rightarrow> distinct (map fst hs) \<and> list_all (\<lambda>kv. canonical_hook_list (snd kv)) hs
      | _ \<Rightarrow> False)"

definition perm_list :: "json \<Rightarrow> string \<Rightarrow> json list" where
  "perm_list v t = py_elems (get_or v t (JArr []))"

definition canonical_permissions :: "json \<Rightarrow> bool" where
  "canonical_permissions v =
     (v = JObj [(''allow'', JArr (perm_list v ''allow'')),
                (''deny'', JArr (perm_list v ''deny'')),
                (''ask'', JArr (perm_list v ''ask''))] \<and>
      list_all (\<lambda>t. list_all is_str (perm_list v t) \<and> distinct (perm_list v t))
        [''allow'', ''deny'', ''ask''])"

definition canonical_item :: "string \<times> json \<Rightarrow> bool" where
  "canonical_item kv =
     ((fst kv = ''hooks'' \<longrightarrow> canonical_hooks (snd kv)) \<and>
      (fst kv = ''permissions'' \<longrightarrow> canonical_permissions (snd kv)))"

definition canonical_doc :: "json \<Rightarrow> bool" where
  "canonical_doc d =
     (case d of
        JObj kvs \<Rightarrow> distinct (map fst kvs) \<and> list_all canonical_item kvs
      | _ \<Rightarrow> False)"

text \<open>The keys of the merged document and the value under each.\<close>

definition top_keys :: "json list \<Rightarrow> string list" where
  "top_keys docs = firsts id {} (map fst (all_items docs))"

definition top_value :: "json list \<Rightarrow> string \<Rightarrow> json" where
  "top_value docs k =
     (if k = ''hooks'' then hooks_spec docs
      else if k = ''permissions'' then perms_spec docs
      else last_value k docs)"

subsection \<open>The documents that the merge accepts\<close>

text \<open>
  The merge checks nothing by itself: it fails where one of its operations fails. These
  predicates say where none does. A value that \<^verbatim>\<open>extend\<close> can iterate is a list, a
  string or a dict; a hook must be a dict with a hashable \<open>command\<close>; a group must be
  a dict with a hashable \<open>matcher\<close> and iterable \<open>hooks\<close> of such hooks; the value of
  a hook type must iterate to such groups; the value of a permission type must iterate
  to hashable values, and the permission type must be known.
\<close>

definition iterable :: "json \<Rightarrow> bool" where
  "iterable v = (case py_iter v of Inr _ \<Rightarrow> True | Inl _ \<Rightarrow> False)"

definition ok_hook :: "json \<Rightarrow> bool" where
  "ok_hook h = (is_dict h \<and> hashable (get_or h ''command'' (JStr '''')))"

definition ok_group_shape :: "json \<Rightarrow> bool" where
  "ok_group_shape e =
     (is_dict e \<and> hashable (matcher_of e) \<and> iterable (get_or e ''hooks'' (JArr [])))"

definition ok_group :: "json \<Rightarrow> bool" where
  "ok_group e = (ok_group_shape e \<and> list_all ok_hook (hooks_of e))"

definition ok_hook_list :: "json \<Rightarrow> bool" where
  "ok_hook_list l = (iterable l \<and> list_all ok_group (py_elems l))"

definition ok_perm_list :: "json \<Rightarrow> bool" where
  "ok_perm_list l = (iterable l \<and> list_all hashable (py_elems l))"

definition mergeable_item :: "string \<times> json \<Rightarrow> bool" where
  "mergeable_item kv =
     ((fst kv = ''hooks'' \<longrightarrow>
         is_dict (snd kv) \<and> list_all (\<lambda>q. ok_hook_list (snd q)) (dict_of (snd kv))) \<and>
      (fst kv = ''permissions'' \<longrightarrow>
         is_dict (snd kv) \<and>
         list_all (\<lambda>q. known_perm_type (fst q) \<and> ok_perm_list (snd q)) (dict_of (snd kv))))"

definition mergeable_doc :: "json \<Rightarrow> bool" where
  "mergeable_doc d = (is_dict d \<and> list_all mergeable_item (dict_of d))"

text \<open>
  What the fold alone needs, the permission types apart: documents and sections that
  are dicts, and iterable values in the sections.
\<close>

definition foldable_item :: "string \<times> json \<Rightarrow> bool" where
  "foldable_item kv =
     (known_key kv \<longrightarrow>
        is_dict (snd kv) \<and> list_all (\<lambda>q. iterable (snd q)) (dict_of (snd kv)))"

definition foldable_doc :: "json \<Rightarrow> bool" where
  "foldable_doc d = (is_dict d \<and> list_all foldable_item (dict_of d))"

subsection \<open>Deduplicated documents\<close>

text \<open>
  The canonical form in the words of the specification: a valid document in which no two
  groups of a hook type have the same matcher, no two hooks of a group have the same
  command, and \<open>permissions\<close>, when there is one, has the three keys \<open>allow\<close>,
  \<open>deny\<close> and \<open>ask\<close>, each with a list without duplicates. It says nothing of the
  keys that a group has besides, nor of a group without \<open>matcher\<close>.
\<close>

definition deduplicated_hook_list :: "json \<Rightarrow> bool" where
  "deduplicated_hook_list l =
     (distinct (map matcher_key (py_elems l)) \<and>
      list_all (\<lambda>g. distinct (map command_key (hooks_of g))) (py_elems l))"

definition deduplicated_permissions :: "json \<Rightarrow> bool" where
  "deduplicated_permissions v =
     list_all (\<lambda>t. lookup v t \<noteq> None \<and> distinct (perm_list v t)) [''allow'', ''deny'', ''ask'']"

definition deduplicated_item :: "string \<times> json \<Rightarrow> bool" where
  "deduplicated_item kv =
     ((fst kv = ''hooks'' \<longrightarrow>
         list_all (\<lambda>q. deduplicated_hook_list (snd q)) (dict_of (snd kv))) \<and>
      (fst kv = ''permissions'' \<longrightarrow> deduplicated_permissions (snd kv)))"

definition deduplicated_doc :: "json \<Rightarrow> bool" where
  "deduplicated_doc d = (valid_doc d \<and> list_all deduplicated_item (dict_of d))"

section \<open>Properties\<close>

subsection \<open>First occurrences\<close>

lemma firsts_append:
  "firsts f S (xs @ ys) = firsts f S xs @ firsts f (S \<union> f ` set xs) ys"
  by (induction xs arbitrary: S) (auto simp: insert_absorb)

lemma firsts_set_subset: "set (firsts f S xs) \<subseteq> set xs"
  by (induction xs arbitrary: S) auto

lemma firsts_keys: "f ` set (firsts f S xs) = f ` set xs - S"
  by (induction xs arbitrary: S) auto

lemma firsts_notin: "x \<in> set (firsts f S xs) \<Longrightarrow> f x \<notin> S"
  using firsts_keys [of f S xs] by blast

lemma firsts_distinct: "distinct (map f (firsts f S xs))"
proof (induction xs arbitrary: S)
  case Nil
  show ?case by simp
next
  case (Cons x xs)
  have "f x \<notin> f ` set (firsts f (insert (f x) S) xs)"
    by (simp add: firsts_keys)
  with Cons show ?case by simp
qed

lemma firsts_absorbed: "f ` set xs \<subseteq> S \<Longrightarrow> firsts f S xs = []"
  by (induction xs arbitrary: S) auto

lemma firsts_fixed:
  "distinct (map f xs) \<Longrightarrow> f ` set xs \<inter> S = {} \<Longrightarrow> firsts f S xs = xs"
  by (induction xs arbitrary: S) auto

lemma firsts_idem: "firsts f S (firsts f S xs) = firsts f S xs"
proof (rule firsts_fixed)
  show "distinct (map f (firsts f S xs))" by (rule firsts_distinct)
  show "f ` set (firsts f S xs) \<inter> S = {}" by (auto simp: firsts_keys)
qed

lemma firsts_map: "firsts f S (map g xs) = map g (firsts (\<lambda>x. f (g x)) S xs)"
  by (induction xs arbitrary: S) auto

lemma firsts_subseq: "subseq (firsts f S xs) xs"
  by (induction xs arbitrary: S) auto

lemma firsts_find:
  "x \<in> set (firsts f S xs) \<Longrightarrow> find (\<lambda>y. f y = f x) xs = Some x"
proof (induction xs arbitrary: S)
  case Nil
  then show ?case by simp
next
  case (Cons a xs)
  show ?case
  proof (cases "f a = f x")
    case True
    have "x \<notin> set (firsts f (insert (f a) S) xs)"
      using firsts_notin [of x f "insert (f a) S" xs] True by auto
    moreover have "x \<notin> set (firsts f S xs)" if "f a \<in> S"
      using firsts_notin [of x f S xs] True that by auto
    ultimately have "x = a" using Cons.prems by (auto split: if_splits)
    then show ?thesis by simp
  next
    case False
    with Cons show ?thesis by (auto split: if_splits)
  qed
qed

text \<open>Re-adding a suffix that was already merged changes nothing.\<close>

lemma firsts_reapply:
  "firsts f {} (firsts f {} (xs @ ys) @ ys) = firsts f {} (xs @ ys)"
proof -
  have "f ` set ys \<subseteq> {} \<union> f ` set (firsts f {} (xs @ ys))"
    by (auto simp: firsts_keys)
  then have "firsts f ({} \<union> f ` set (firsts f {} (xs @ ys))) ys = []"
    by (rule firsts_absorbed)
  then show ?thesis
    by (simp only: firsts_append [of f "{}" "firsts f {} (xs @ ys)" ys] firsts_idem append_Nil2)
qed

subsection \<open>The deduplication, step by step\<close>

lemma py_get_Inr: "py_get v k d = Inr x \<Longrightarrow> x = get_or v k d"
  by (cases v) (auto simp: get_or_def dict_of_def)

lemma py_iter_Inr: "py_iter v = Inr xs \<Longrightarrow> xs = py_elems v"
  by (simp add: py_elems_def)

lemma py_items_Inr: "py_items v = Inr kvs \<Longrightarrow> v = JObj kvs"
  by (cases v) auto

lemma dedupe_loop_Inr:
  "dedupe_loop seen res hs = Inr r \<Longrightarrow> r = res @ firsts command_key seen hs"
proof (induction hs arbitrary: seen res)
  case Nil
  then show ?case by simp
next
  case (Cons h hs)
  from Cons.prems obtain key where key: "py_get h ''command'' (JStr '''') = Inr key"
    by (auto split: sum.splits)
  then have ck: "py_key key = command_key h"
    by (auto simp: command_key_def dest: py_get_Inr)
  show ?case
  proof (cases "command_key h \<in> seen")
    case True
    with Cons.prems key ck have "dedupe_loop seen res hs = Inr r"
      by (auto split: if_splits)
    from Cons.IH [OF this] True show ?thesis by simp
  next
    case False
    with Cons.prems key ck
    have "dedupe_loop (insert (command_key h) seen) (res @ [h]) hs = Inr r"
      by (auto split: if_splits)
    from Cons.IH [OF this] False show ?thesis by simp
  qed
qed

lemma dedupe_hooks_Inr: "dedupe_hooks hs = Inr r \<Longrightarrow> r = firsts command_key {} hs"
  unfolding dedupe_hooks_def by (drule dedupe_loop_Inr) simp

lemma fromkeys_Inr:
  "fromkeys ks xs = Inr r \<Longrightarrow> r = ks @ firsts py_key (py_key ` set ks) xs"
proof (induction xs arbitrary: ks)
  case Nil
  then show ?case by simp
next
  case (Cons x xs)
  show ?case
  proof (cases "py_key x \<in> py_key ` set ks")
    case True
    with Cons.prems have "fromkeys ks xs = Inr r"
      by (auto split: if_splits)
    from Cons.IH [OF this] True show ?thesis by simp
  next
    case False
    with Cons.prems have "fromkeys (ks @ [x]) xs = Inr r"
      by (auto split: if_splits)
    from Cons.IH [OF this] False show ?thesis by simp
  qed
qed

lemma rebuild_Inr:
  "rebuild bm = Inr gs \<Longrightarrow>
   gs = map (\<lambda>p. JObj [(''matcher'', fst p), (''hooks'', JArr (firsts command_key {} (snd p)))]) bm"
proof (induction bm arbitrary: gs)
  case Nil
  then show ?case by simp
next
  case (Cons p bm)
  obtain m hs where p: "p = (m, hs)" by (cases p)
  from Cons.prems p obtain ds gs' where
    ds: "dedupe_hooks hs = Inr ds" and gs': "rebuild bm = Inr gs'" and
    gs: "gs = JObj [(''matcher'', m), (''hooks'', JArr ds)] # gs'"
    by (auto split: sum.splits)
  from Cons.IH [OF gs'] dedupe_hooks_Inr [OF ds] gs p show ?case by simp
qed
subsection \<open>The closed form of accumulation\<close>

lemma gath_Cons:
  "gath key k (x # xs) = (if key (fst x) = k then snd x else []) @ gath key k xs"
  by (simp add: gath_def)

lemma acc_step_key_list:
  "map (\<lambda>p. key (fst p)) (acc_step key bm x) =
     map (\<lambda>p. key (fst p)) bm @
     (if key (fst x) \<in> (\<lambda>p. key (fst p)) ` set bm then [] else [key (fst x)])"
proof -
  have "map (\<lambda>p. key (fst p))
          (map (\<lambda>p. if key (fst p) = key (fst x) then (fst p, snd p @ snd x) else p) bm) =
        map (\<lambda>p. key (fst p)) bm"
    by (induction bm) auto
  then show ?thesis by (simp add: acc_step_def)
qed

lemma acc_step_keys:
  "(\<lambda>p. key (fst p)) ` set (acc_step key bm x) = insert (key (fst x)) ((\<lambda>p. key (fst p)) ` set bm)"
proof -
  have "set (map (\<lambda>p. key (fst p)) (acc_step key bm x)) =
        insert (key (fst x)) (set (map (\<lambda>p. key (fst p)) bm))"
    unfolding acc_step_key_list by auto
  then show ?thesis by simp
qed

lemma acc_step_distinct:
  "distinct (map (\<lambda>p. key (fst p)) bm) \<Longrightarrow> distinct (map (\<lambda>p. key (fst p)) (acc_step key bm x))"
  unfolding acc_step_key_list by auto

lemma foldl_acc_step:
  "foldl (acc_step key) bm xs =
     map (\<lambda>p. (fst p, snd p @ gath key (key (fst p)) xs)) bm @
     map (\<lambda>x. (fst x, gath key (key (fst x)) xs))
       (firsts (\<lambda>x. key (fst x)) ((\<lambda>p. key (fst p)) ` set bm) xs)"
proof (induction xs arbitrary: bm)
  case Nil
  show ?case by (simp add: gath_def)
next
  case (Cons x xs)
  let ?K = "(\<lambda>p. key (fst p)) ` set bm"
  let ?F = "\<lambda>S. firsts (\<lambda>x. key (fst x)) S xs"
  have IH: "foldl (acc_step key) (acc_step key bm x) xs =
     map (\<lambda>p. (fst p, snd p @ gath key (key (fst p)) xs)) (acc_step key bm x) @
     map (\<lambda>x. (fst x, gath key (key (fst x)) xs)) (?F (insert (key (fst x)) ?K))"
    using Cons.IH [of "acc_step key bm x"] by (simp only: acc_step_keys)
  have tail: "map (\<lambda>y. (fst y, gath key (key (fst y)) (x # xs))) (?F (insert (key (fst x)) ?K)) =
              map (\<lambda>y. (fst y, gath key (key (fst y)) xs)) (?F (insert (key (fst x)) ?K))"
  proof (rule map_cong [OF refl])
    fix y assume "y \<in> set (?F (insert (key (fst x)) ?K))"
    then have "key (fst y) \<noteq> key (fst x)"
      using firsts_notin [of y "\<lambda>x. key (fst x)" "insert (key (fst x)) ?K" xs] by auto
    then show "(fst y, gath key (key (fst y)) (x # xs)) = (fst y, gath key (key (fst y)) xs)"
      by (simp add: gath_Cons)
  qed
  show ?case
  proof (cases "key (fst x) \<in> ?K")
    case True
    then have ins: "insert (key (fst x)) ?K = ?K" by auto
    have step: "acc_step key bm x =
       map (\<lambda>p. if key (fst p) = key (fst x) then (fst p, snd p @ snd x) else p) bm"
      using True by (simp add: acc_step_def)
    have head: "map (\<lambda>p. (fst p, snd p @ gath key (key (fst p)) xs)) (acc_step key bm x) =
                map (\<lambda>p. (fst p, snd p @ gath key (key (fst p)) (x # xs))) bm"
      unfolding step by (simp add: gath_Cons)
    show ?thesis
      using True IH tail head by (simp add: ins)
  next
    case False
    have step: "acc_step key bm x = bm @ [x]"
      using False by (simp add: acc_step_def)
    have head: "map (\<lambda>p. (fst p, snd p @ gath key (key (fst p)) (x # xs))) bm =
                map (\<lambda>p. (fst p, snd p @ gath key (key (fst p)) xs)) bm"
    proof (rule map_cong [OF refl])
      fix p assume "p \<in> set bm"
      with False have "key (fst x) \<noteq> key (fst p)" by auto
      then show "(fst p, snd p @ gath key (key (fst p)) (x # xs)) =
                 (fst p, snd p @ gath key (key (fst p)) xs)"
        by (simp add: gath_Cons)
    qed
    show ?thesis
      using False IH tail head by (simp add: step gath_Cons)
  qed
qed

subsection \<open>The grouping, step by step\<close>

lemma map_no_match:
  "\<forall>q\<in>set ps. \<not> P q \<Longrightarrow> map (\<lambda>p. if P p then g p else p) ps = ps"
  by (induction ps) auto

lemma matcher_extend_present:
  "distinct (map (\<lambda>p. py_key (fst p)) bm) \<Longrightarrow>
   matcher_extend m ys bm =
     map (\<lambda>p. if py_key (fst p) = py_key m then (fst p, snd p @ ys) else p) bm"
proof (induction bm)
  case Nil
  show ?case by simp
next
  case (Cons p ps)
  show ?case
  proof (cases "py_key (fst p) = py_key m")
    case True
    with Cons.prems have "py_key m \<notin> (\<lambda>p. py_key (fst p)) ` set ps" by auto
    then have "\<forall>q\<in>set ps. \<not> py_key (fst q) = py_key m" by (metis imageI)
    from map_no_match [OF this] True show ?thesis by simp
  next
    case False
    with Cons show ?thesis by simp
  qed
qed

lemma matcher_extend_new:
  "py_key m \<notin> (\<lambda>p. py_key (fst p)) ` set bm \<Longrightarrow>
   matcher_extend m ys (bm @ [(m, [])]) = bm @ [(m, ys)]"
  by (induction bm) auto

lemma matcher_step:
  "distinct (map (\<lambda>p. py_key (fst p)) bm) \<Longrightarrow>
   matcher_extend m ys (if matcher_in m bm then bm else bm @ [(m, [])]) =
     acc_step py_key bm (m, ys)"
proof (cases "matcher_in m bm")
  case True
  assume "distinct (map (\<lambda>p. py_key (fst p)) bm)"
  from matcher_extend_present [OF this] True show ?thesis
    by (simp add: matcher_in_def acc_step_def)
next
  case False
  then have "py_key m \<notin> (\<lambda>p. py_key (fst p)) ` set bm"
    by (simp add: matcher_in_def)
  from matcher_extend_new [OF this] this False show ?thesis
    by (simp add: acc_step_def)
qed

lemma group_by_matcher_Inr:
  "distinct (map (\<lambda>p. py_key (fst p)) bm) \<Longrightarrow> group_by_matcher bm es = Inr bm' \<Longrightarrow>
   bm' = foldl (acc_step py_key) bm (map (\<lambda>e. (matcher_of e, hooks_of e)) es)"
proof (induction es arbitrary: bm)
  case Nil
  then show ?case by simp
next
  case (Cons e es)
  from Cons.prems(2) obtain m hv ys where
    m: "py_get e ''matcher'' (JStr '''') = Inr m" and
    hv: "py_get e ''hooks'' (JArr []) = Inr hv" and
    ys: "py_iter hv = Inr ys" and
    rest: "group_by_matcher
             (matcher_extend m ys (if matcher_in m bm then bm else bm @ [(m, [])])) es = Inr bm'"
    by (auto split: sum.splits if_splits)
  have m': "m = matcher_of e" using py_get_Inr [OF m] by (simp add: matcher_of_def)
  have ys': "ys = hooks_of e"
    using py_get_Inr [OF hv] py_iter_Inr [OF ys] by (simp add: hooks_of_def)
  have rest': "group_by_matcher (acc_step py_key bm (m, ys)) es = Inr bm'"
    using rest matcher_step [OF Cons.prems(1)] by simp
  from Cons.IH [OF acc_step_distinct [OF Cons.prems(1)] rest'] m' ys'
  show ?case by simp
qed

lemma gath_matchers:
  "gath py_key (py_key m) (map (\<lambda>e. (matcher_of e, hooks_of e)) es) = gathered_hooks m es"
  by (simp add: gath_def gathered_hooks_def filter_map comp_def matcher_key_def)

lemma group_by_matcher_closed:
  assumes "group_by_matcher [] es = Inr bm"
  shows "bm = map (\<lambda>g. (matcher_of g, gathered_hooks (matcher_of g) es))
                (firsts matcher_key {} es)"
proof -
  have "bm = foldl (acc_step py_key) [] (map (\<lambda>e. (matcher_of e, hooks_of e)) es)"
    using group_by_matcher_Inr [OF _ assms] by simp
  moreover have "(\<lambda>x. py_key (matcher_of x)) = matcher_key"
    by (simp add: fun_eq_iff matcher_key_def)
  ultimately show ?thesis
    by (simp add: foldl_acc_step firsts_map gath_matchers comp_def)
qed

lemma regroup_Inr:
  assumes "group_by_matcher [] es = Inr bm" and "rebuild bm = Inr gs"
  shows "gs = group_spec es"
  using rebuild_Inr [OF assms(2)]
  by (simp add: group_by_matcher_closed [OF assms(1)] group_spec_def comp_def)

lemma dedupe_hook_types_Inr:
  "dedupe_hook_types h = Inr h' \<Longrightarrow> h' = map (\<lambda>p. (fst p, group_spec (snd p))) h"
proof (induction h arbitrary: h')
  case Nil
  then show ?case by simp
next
  case (Cons p h)
  obtain t es where p: "p = (t, es)" by (cases p)
  from Cons.prems p obtain bm gs r where
    bm: "group_by_matcher [] es = Inr bm" and gs: "rebuild bm = Inr gs" and
    r: "dedupe_hook_types h = Inr r" and h': "h' = (t, gs) # r"
    by (auto split: sum.splits)
  from Cons.IH [OF r] regroup_Inr [OF bm gs] h' p show ?case by simp
qed

lemma dedupe_perm_types_Inr:
  "dedupe_perm_types p = Inr p' \<Longrightarrow> p' = map (\<lambda>q. (fst q, firsts py_key {} (snd q))) p"
proof (induction p arbitrary: p')
  case Nil
  then show ?case by simp
next
  case (Cons q p)
  obtain t xs where q: "q = (t, xs)" by (cases q)
  from Cons.prems q obtain ps r where
    ps: "fromkeys [] xs = Inr ps" and r: "dedupe_perm_types p = Inr r" and
    p': "p' = (t, ps) # r"
    by (auto split: sum.splits)
  from Cons.IH [OF r] fromkeys_Inr [OF ps] p' q show ?case by simp
qed

subsection \<open>The fold, step by step\<close>

lemma update_present:
  "distinct (map fst h) \<Longrightarrow> map_of h t = Some xs \<Longrightarrow>
   AList.update t (xs @ ys) h = map (\<lambda>p. if fst p = t then (fst p, snd p @ ys) else p) h"
proof (induction h)
  case Nil
  then show ?case by simp
next
  case (Cons p ps)
  show ?case
  proof (cases "fst p = t")
    case True
    with Cons.prems have "t \<notin> fst ` set ps" by auto
    then have "\<forall>q\<in>set ps. \<not> fst q = t" by (metis imageI)
    from map_no_match [OF this] True Cons.prems(2) show ?thesis by simp
  next
    case False
    with Cons show ?thesis by simp
  qed
qed

lemma update_new: "t \<notin> fst ` set h \<Longrightarrow> AList.update t v h = h @ [(t, v)]"
  by (induction h) auto

lemma extend_at_Inr:
  assumes "extend_at p t v = Inr p1" and "distinct (map fst p)"
  shows "has_key t p \<and> p1 = acc_step (\<lambda>k. k) p (t, py_elems v)"
proof -
  from assms(1) obtain xs ys where
    xs: "map_of p t = Some xs" and ys: "py_iter v = Inr ys" and
    p1: "p1 = AList.update t (xs @ ys) p"
    by (auto simp: extend_at_def split: option.splits sum.splits)
  from xs have key: "t \<in> fst ` set p" by (metis domI dom_map_of_conv_image_fst)
  with p1 update_present [OF assms(2) xs] py_iter_Inr [OF ys]
  show ?thesis by (simp add: acc_step_def has_key_def)
qed

lemma extend_at_created_Inr:
  assumes "extend_at (if has_key t h then h else AList.update t [] h) t v = Inr h1"
    and "distinct (map fst h)"
  shows "h1 = acc_step (\<lambda>k. k) h (t, py_elems v)"
proof (cases "has_key t h")
  case True
  with assms extend_at_Inr [of h t v h1] show ?thesis by simp
next
  case False
  then have new: "t \<notin> fst ` set h" by (simp add: has_key_def)
  then have none: "map_of h t = None" by (simp add: map_of_eq_None_iff)
  from assms(1) False obtain ys where ys: "py_iter v = Inr ys" and
    h1: "h1 = AList.update t ([] @ ys) (h @ [(t, [])])"
    by (auto simp: extend_at_def update_new [OF new] none map_add_def split: sum.splits)
  have "AList.update t ys (h @ [(t, [])]) = h @ [(t, ys)]"
    using new by (induction h) auto
  with h1 new py_iter_Inr [OF ys] show ?thesis by (simp add: acc_step_def)
qed

lemma merge_hook_types_Inr:
  "distinct (map fst h) \<Longrightarrow> merge_hook_types h its = Inr h' \<Longrightarrow>
   h' = foldl (acc_step (\<lambda>k. k)) h (map elems_item its)"
proof (induction its arbitrary: h)
  case Nil
  then show ?case by simp
next
  case (Cons kv its)
  obtain t v where kv: "kv = (t, v)" by (cases kv)
  from Cons.prems(2) kv obtain h1 where
    h1: "extend_at (if has_key t h then h else AList.update t [] h) t v = Inr h1" and
    rest: "merge_hook_types h1 its = Inr h'"
    by (auto split: sum.splits)
  have step: "h1 = acc_step (\<lambda>k. k) h (t, py_elems v)"
    by (rule extend_at_created_Inr [OF h1 Cons.prems(1)])
  have "distinct (map fst h1)"
    unfolding step using acc_step_distinct [of "\<lambda>k. k" h] Cons.prems(1) by simp
  from Cons.IH [OF this rest] step kv show ?case by (simp add: elems_item_def)
qed

lemma merge_perm_types_Inr:
  "distinct (map fst p) \<Longrightarrow> merge_perm_types p its = Inr p' \<Longrightarrow>
   p' = foldl (acc_step (\<lambda>k. k)) p (map elems_item its) \<and> fst ` set its \<subseteq> fst ` set p"
proof (induction its arbitrary: p)
  case Nil
  then show ?case by simp
next
  case (Cons kv its)
  obtain t v where kv: "kv = (t, v)" by (cases kv)
  from Cons.prems(2) kv obtain p1 where
    p1: "extend_at p t v = Inr p1" and rest: "merge_perm_types p1 its = Inr p'"
    by (auto split: sum.splits)
  from extend_at_Inr [OF p1 Cons.prems(1)]
  have key: "t \<in> fst ` set p" and step: "p1 = acc_step (\<lambda>k. k) p (t, py_elems v)"
    by (simp_all add: has_key_def)
  have d1: "distinct (map fst p1)"
    unfolding step using acc_step_distinct [of "\<lambda>k. k" p] Cons.prems(1) by simp
  have keys1: "fst ` set p1 = fst ` set p"
    unfolding step using acc_step_keys [of "\<lambda>k. k" p "(t, py_elems v)"] key by auto
  from Cons.IH [OF d1 rest] step kv key keys1 show ?case by (simp add: elems_item_def)
qed

lemma section_items_single:
  "section_items s [(k, v)] = (if k = s then dict_of v else [])"
  by (simp add: section_items_def)

lemma section_items_append:
  "section_items s (a @ b) = section_items s a @ section_items s b"
  by (simp add: section_items_def)

lemma has_key_update: "has_key k (AList.update k' v r) = (k = k' \<or> has_key k r)"
  by (auto simp: has_key_def AList.dom_update)

lemma merge_item_hooks:
  assumes "merge_item st (''hooks'', v) = Inr st'"
    and "distinct (map fst (current_hooks st))"
  shows "result st' = (if has_key ''hooks'' (result st) then result st
                       else AList.update ''hooks'' JNull (result st))"
    and "current_hooks st' =
           foldl (acc_step (\<lambda>k. k)) (current_hooks st) (map elems_item (dict_of v))"
    and "current_permissions st' = current_permissions st"
proof -
  let ?st1 = "if has_key ''hooks'' (result st) then st
              else st\<lparr>result := AList.update ''hooks'' JNull (result st), result_hooks := []\<rparr>"
  from assms(1) obtain its h where
    its: "py_items v = Inr its" and h: "merge_hook_types (result_hooks ?st1) its = Inr h" and
    st': "st' = ?st1\<lparr>result_hooks := h\<rparr>"
    by (auto simp: Let_def split: sum.splits)
  have cur: "result_hooks ?st1 = current_hooks st" by (simp add: current_hooks_def)
  have v: "dict_of v = its" using py_items_Inr [OF its] by (simp add: dict_of_def)
  show "result st' = (if has_key ''hooks'' (result st) then result st
                       else AList.update ''hooks'' JNull (result st))"
    using st' by simp
  then have hk: "has_key ''hooks'' (result st')"
    and pk: "has_key ''permissions'' (result st') = has_key ''permissions'' (result st)"
    by (simp_all add: has_key_update)
  from merge_hook_types_Inr [of "current_hooks st" its h] assms(2) h cur
  have "h = foldl (acc_step (\<lambda>k. k)) (current_hooks st) (map elems_item its)" by simp
  with hk st' v show "current_hooks st' =
           foldl (acc_step (\<lambda>k. k)) (current_hooks st) (map elems_item (dict_of v))"
    by (simp add: current_hooks_def)
  show "current_permissions st' = current_permissions st"
    using pk st' by (simp add: current_permissions_def)
qed

lemma merge_item_permissions:
  assumes "merge_item st (''permissions'', v) = Inr st'"
    and "distinct (map fst (current_permissions st))"
  shows "result st' = (if has_key ''permissions'' (result st) then result st
                       else AList.update ''permissions'' JNull (result st))"
    and "current_permissions st' =
           foldl (acc_step (\<lambda>k. k)) (current_permissions st) (map elems_item (dict_of v))"
    and "fst ` set (dict_of v) \<subseteq> fst ` set (current_permissions st)"
    and "current_hooks st' = current_hooks st"
proof -
  let ?st1 = "if has_key ''permissions'' (result st) then st
              else st\<lparr>result := AList.update ''permissions'' JNull (result st),
                      result_permissions := [(''allow'', []), (''deny'', []), (''ask'', [])]\<rparr>"
  from assms(1) obtain its p where
    its: "py_items v = Inr its" and
    p: "merge_perm_types (result_permissions ?st1) its = Inr p" and
    st': "st' = ?st1\<lparr>result_permissions := p\<rparr>"
    by (auto simp: Let_def split: sum.splits)
  have cur: "result_permissions ?st1 = current_permissions st"
    by (simp add: current_permissions_def)
  have v: "dict_of v = its" using py_items_Inr [OF its] by (simp add: dict_of_def)
  show "result st' = (if has_key ''permissions'' (result st) then result st
                       else AList.update ''permissions'' JNull (result st))"
    using st' by simp
  then have pk: "has_key ''permissions'' (result st')"
    and hk: "has_key ''hooks'' (result st') = has_key ''hooks'' (result st)"
    by (simp_all add: has_key_update)
  from merge_perm_types_Inr [of "current_permissions st" its p] assms(2) p cur
  have "p = foldl (acc_step (\<lambda>k. k)) (current_permissions st) (map elems_item its)"
    and sub: "fst ` set its \<subseteq> fst ` set (current_permissions st)" by simp_all
  with pk st' v show "current_permissions st' =
           foldl (acc_step (\<lambda>k. k)) (current_permissions st) (map elems_item (dict_of v))"
    by (simp add: current_permissions_def)
  show "fst ` set (dict_of v) \<subseteq> fst ` set (current_permissions st)"
    using sub v by simp
  show "current_hooks st' = current_hooks st"
    using hk st' by (simp add: current_hooks_def)
qed

lemma merge_item_other:
  assumes "merge_item st (k, v) = Inr st'" and "k \<noteq> ''hooks''" and "k \<noteq> ''permissions''"
  shows "result st' = AList.update k v (result st)"
    and "current_hooks st' = current_hooks st"
    and "current_permissions st' = current_permissions st"
  using assms by (auto simp: current_hooks_def current_permissions_def has_key_update)

lemma merge_item_Inr:
  assumes "merge_item st kv = Inr st'"
    and "distinct (map fst (current_hooks st))"
    and "distinct (map fst (current_permissions st))"
  shows "result st' = top_step (result st) kv"
    and "current_hooks st' =
           foldl (acc_step (\<lambda>k. k)) (current_hooks st)
             (map elems_item (section_items ''hooks'' [kv]))"
    and "current_permissions st' =
           foldl (acc_step (\<lambda>k. k)) (current_permissions st)
             (map elems_item (section_items ''permissions'' [kv]))"
    and "fst ` set (section_items ''permissions'' [kv]) \<subseteq> fst ` set (current_permissions st)"
proof -
  obtain k v where kv: "kv = (k, v)" by (cases kv)
  consider (h) "k = ''hooks''" | (p) "k = ''permissions''"
    | (o) "k \<noteq> ''hooks''" "k \<noteq> ''permissions''" by blast
  then have "result st' = top_step (result st) kv \<and>
     current_hooks st' =
           foldl (acc_step (\<lambda>k. k)) (current_hooks st)
             (map elems_item (section_items ''hooks'' [kv])) \<and>
     current_permissions st' =
           foldl (acc_step (\<lambda>k. k)) (current_permissions st)
             (map elems_item (section_items ''permissions'' [kv])) \<and>
     fst ` set (section_items ''permissions'' [kv]) \<subseteq> fst ` set (current_permissions st)"
  proof cases
    case h
    with assms(1) kv have m: "merge_item st (''hooks'', v) = Inr st'" by simp
    from merge_item_hooks [OF m assms(2)] h kv show ?thesis
      by (simp add: top_step_def section_items_single)
  next
    case p
    with assms(1) kv have m: "merge_item st (''permissions'', v) = Inr st'" by simp
    from merge_item_permissions [OF m assms(3)] p kv show ?thesis
      by (simp add: top_step_def section_items_single)
  next
    case o
    from merge_item_other [OF assms(1) [unfolded kv] o] o kv show ?thesis
      by (simp add: top_step_def section_items_single)
  qed
  then show "result st' = top_step (result st) kv"
    and "current_hooks st' =
           foldl (acc_step (\<lambda>k. k)) (current_hooks st)
             (map elems_item (section_items ''hooks'' [kv]))"
    and "current_permissions st' =
           foldl (acc_step (\<lambda>k. k)) (current_permissions st)
             (map elems_item (section_items ''permissions'' [kv]))"
    and "fst ` set (section_items ''permissions'' [kv]) \<subseteq> fst ` set (current_permissions st)"
    by simp_all
qed

lemma foldl_acc_step_distinct:
  "distinct (map (\<lambda>p. key (fst p)) bm) \<Longrightarrow>
   distinct (map (\<lambda>p. key (fst p)) (foldl (acc_step key) bm xs))"
  by (induction xs arbitrary: bm) (simp_all add: acc_step_distinct)

lemma foldl_acc_step_keys:
  "(\<lambda>p. key (fst p)) ` set (foldl (acc_step key) bm xs) =
   (\<lambda>p. key (fst p)) ` set bm \<union> (\<lambda>p. key (fst p)) ` set xs"
  by (induction xs arbitrary: bm) (auto simp: acc_step_keys)

lemma foldl_acc_step_distinct_id:
  "distinct (map fst bm) \<Longrightarrow> distinct (map fst (foldl (acc_step (\<lambda>k. k)) bm xs))"
  by (rule foldl_acc_step_distinct [of "\<lambda>k. k"])

lemma merge_items_Inr:
  "merge_items st its = Inr st' \<Longrightarrow>
   distinct (map fst (current_hooks st)) \<Longrightarrow>
   distinct (map fst (current_permissions st)) \<Longrightarrow>
   result st' = foldl top_step (result st) its \<and>
   current_hooks st' =
     foldl (acc_step (\<lambda>k. k)) (current_hooks st)
       (map elems_item (section_items ''hooks'' its)) \<and>
   current_permissions st' =
     foldl (acc_step (\<lambda>k. k)) (current_permissions st)
       (map elems_item (section_items ''permissions'' its)) \<and>
   fst ` set (section_items ''permissions'' its) \<subseteq> fst ` set (current_permissions st)"
proof (induction its arbitrary: st)
  case Nil
  then show ?case by (simp add: section_items_def)
next
  case (Cons kv its)
  from Cons.prems(1) obtain st1 where
    st1: "merge_item st kv = Inr st1" and rest: "merge_items st1 its = Inr st'"
    by (auto split: sum.splits)
  note step = merge_item_Inr [OF st1 Cons.prems(2) Cons.prems(3)]
  have dh: "distinct (map fst (current_hooks st1))"
    unfolding step(2) by (rule foldl_acc_step_distinct_id [OF Cons.prems(2)])
  have dp: "distinct (map fst (current_permissions st1))"
    unfolding step(3) by (rule foldl_acc_step_distinct_id [OF Cons.prems(3)])
  have keys: "fst ` set (current_permissions st1) = fst ` set (current_permissions st)"
    unfolding step(3)
    using foldl_acc_step_keys [of "\<lambda>k. k" "current_permissions st"
            "map elems_item (section_items ''permissions'' [kv])"] step(4)
    by (auto simp: elems_item_def image_image)
  have split: "section_items s (kv # its) = section_items s [kv] @ section_items s its" for s
    using section_items_append [of s "[kv]" its] by simp
  from Cons.IH [OF rest dh dp] step keys show ?case
    by (simp add: split image_Un)
qed

lemma merge_items_append:
  "merge_items st (a @ b) =
     (case merge_items st a of Inl e \<Rightarrow> Inl e | Inr st1 \<Rightarrow> merge_items st1 b)"
  by (induction a arbitrary: st) (auto split: sum.splits)

lemma merge_dicts_Inr:
  "merge_dicts st docs = Inr st' \<Longrightarrow>
   merge_items st (all_items docs) = Inr st' \<and> (\<forall>d\<in>set docs. \<exists>kvs. d = JObj kvs)"
proof (induction docs arbitrary: st)
  case Nil
  then show ?case by (simp add: all_items_def)
next
  case (Cons d docs)
  from Cons.prems obtain its st1 where
    its: "py_items d = Inr its" and st1: "merge_items st its = Inr st1" and
    rest: "merge_dicts st1 docs = Inr st'"
    by (auto split: sum.splits)
  have d: "d = JObj its" by (rule py_items_Inr [OF its])
  have "all_items (d # docs) = its @ all_items docs"
    by (simp add: all_items_def d dict_of_def)
  with Cons.IH [OF rest] st1 d show ?case
    by (simp add: merge_items_append)
qed

lemma top_step_keys:
  "map fst (top_step r kv) = map fst r @ (if fst kv \<in> fst ` set r then [] else [fst kv])"
  by (simp add: top_step_def has_key_def AList.update_keys)

lemma top_keys:
  "map fst (foldl top_step r its) = map fst r @ firsts id (fst ` set r) (map fst its)"
proof (induction its arbitrary: r)
  case Nil
  show ?case by simp
next
  case (Cons kv its)
  have "fst ` set (top_step r kv) = insert (fst kv) (fst ` set r)"
    using arg_cong [OF top_step_keys [of r kv], of set] by auto
  with Cons.IH [of "top_step r kv"] show ?case
    by (auto simp: top_step_keys insert_absorb)
qed

lemma top_step_value:
  "k \<noteq> ''hooks'' \<Longrightarrow> k \<noteq> ''permissions'' \<Longrightarrow>
   map_of (top_step r kv) k = (if fst kv = k then Some (snd kv) else map_of r k)"
  by (auto simp: top_step_def AList.update_conv')

lemma top_values:
  "k \<noteq> ''hooks'' \<Longrightarrow> k \<noteq> ''permissions'' \<Longrightarrow>
   map_of (foldl top_step r its) k =
     (case map_of (rev its) k of None \<Rightarrow> map_of r k | Some v \<Rightarrow> Some v)"
proof (induction its arbitrary: r)
  case Nil
  show ?case by simp
next
  case (Cons kv its)
  from Cons.IH [OF Cons.prems, of "top_step r kv"] Cons.prems
  show ?case
    by (cases kv) (auto simp: top_step_value map_add_def split: option.splits)
qed

subsection \<open>The merge computes the closed form\<close>

lemma gath_arrivals: "gath (\<lambda>k. k) t (map elems_item si) = arrivals t si"
  by (simp add: gath_def arrivals_def filter_map comp_def elems_item_def)

lemma firsts_fst_elems:
  "firsts (\<lambda>x. fst x) S (map elems_item si) = map elems_item (firsts fst S si)"
proof -
  have "(\<lambda>x. fst (elems_item x)) = fst" by (simp add: fun_eq_iff elems_item_def)
  then show ?thesis using firsts_map [of fst S elems_item si] by simp
qed

lemma firsts_id_fst: "firsts id S (map fst si) = map fst (firsts fst S si)"
proof -
  have "(\<lambda>x. id (fst x)) = fst" by (simp add: fun_eq_iff)
  then show ?thesis using firsts_map [of id S fst si] by simp
qed

lemma hooks_closed:
  "lists_json (map (\<lambda>p. (fst p, group_spec (snd p)))
     (foldl (acc_step (\<lambda>k. k)) []
        (map elems_item (section_items ''hooks'' (all_items docs))))) = hooks_spec docs"
  by (simp add: foldl_acc_step firsts_fst_elems gath_arrivals lists_json_def hooks_spec_def
        hook_types_def hook_entries_def firsts_id_fst comp_def elems_item_def)

lemma perms_closed:
  assumes "fst ` set (section_items ''permissions'' (all_items docs))
           \<subseteq> {''allow'', ''deny'', ''ask''}"
  shows "lists_json (map (\<lambda>q. (fst q, firsts py_key {} (snd q)))
     (foldl (acc_step (\<lambda>k. k)) [(''allow'', []), (''deny'', []), (''ask'', [])]
        (map elems_item (section_items ''permissions'' (all_items docs))))) = perms_spec docs"
proof -
  let ?si = "section_items ''permissions'' (all_items docs)"
  have "(\<lambda>x. fst x) ` set (map elems_item ?si) \<subseteq> {''allow'', ''deny'', ''ask''}"
    using assms by (auto simp: elems_item_def)
  then have "firsts (\<lambda>x. fst x) {''allow'', ''deny'', ''ask''} (map elems_item ?si) = []"
    by (rule firsts_absorbed)
  then show ?thesis
    by (simp add: foldl_acc_step gath_arrivals lists_json_def perms_spec_def perm_entries_def)
qed

lemma dedupe_state_Inr:
  assumes "dedupe_state st = Inr st2"
  shows "result st2 = result st"
    and "has_key ''hooks'' (result st) \<Longrightarrow>
         result_hooks st2 = map (\<lambda>p. (fst p, group_spec (snd p))) (current_hooks st)"
    and "has_key ''permissions'' (result st) \<Longrightarrow>
         result_permissions st2 =
           map (\<lambda>q. (fst q, firsts py_key {} (snd q))) (current_permissions st)"
proof -
  from assms obtain h p where
    h: "(if has_key ''hooks'' (result st) then dedupe_hook_types (result_hooks st)
         else Inr (result_hooks st)) = Inr h" and
    p: "(if has_key ''permissions'' (result st) then dedupe_perm_types (result_permissions st)
         else Inr (result_permissions st)) = Inr p" and
    st2: "st2 = st\<lparr>result_hooks := h, result_permissions := p\<rparr>"
    by (auto simp: dedupe_state_def split: sum.splits)
  show "result st2 = result st" using st2 by simp
  show "result_hooks st2 = map (\<lambda>p. (fst p, group_spec (snd p))) (current_hooks st)"
    if "has_key ''hooks'' (result st)"
    using that h st2 dedupe_hook_types_Inr [of "result_hooks st" h]
    by (simp add: current_hooks_def)
  show "result_permissions st2 =
          map (\<lambda>q. (fst q, firsts py_key {} (snd q))) (current_permissions st)"
    if "has_key ''permissions'' (result st)"
    using that p st2 dedupe_perm_types_Inr [of "result_permissions st" p]
    by (simp add: current_permissions_def)
qed

lemma merge_settings_Inr:
  assumes "merge_settings docs = Inr r"
  shows "r = merge_spec docs"
proof -
  let ?its = "all_items docs"
  from assms obtain st st2 where
    st: "merge_dicts empty_state docs = Inr st" and
    st2: "dedupe_state st = Inr st2" and r: "r = to_json st2"
    by (auto simp: merge_settings_def split: sum.splits)
  from merge_dicts_Inr [OF st] have items: "merge_items empty_state ?its = Inr st" by simp
  have e: "result empty_state = []" "current_hooks empty_state = []"
    "current_permissions empty_state = [(''allow'', []), (''deny'', []), (''ask'', [])]"
    by (simp_all add: empty_state_def current_hooks_def current_permissions_def has_key_def)
  from merge_items_Inr [OF items] e
  have R: "result st = foldl top_step [] ?its"
    and H: "current_hooks st =
              foldl (acc_step (\<lambda>k. k)) [] (map elems_item (section_items ''hooks'' ?its))"
    and P: "current_permissions st =
              foldl (acc_step (\<lambda>k. k)) [(''allow'', []), (''deny'', []), (''ask'', [])]
                (map elems_item (section_items ''permissions'' ?its))"
    and S: "fst ` set (section_items ''permissions'' ?its) \<subseteq> {''allow'', ''deny'', ''ask''}"
    by simp_all
  note D = dedupe_state_Inr [OF st2]
  have keys: "map fst (result st) = firsts id {} (map fst ?its)"
    unfolding R by (simp add: top_keys)
  have dist: "distinct (map fst (result st))"
    unfolding keys using firsts_distinct [of id "{}" "map fst ?its"] by simp
  let ?F = "\<lambda>kv. if fst kv = ''hooks'' then (fst kv, lists_json (result_hooks st2))
                 else if fst kv = ''permissions''
                   then (fst kv, lists_json (result_permissions st2))
                 else kv"
  let ?G = "\<lambda>k. (k, if k = ''hooks'' then hooks_spec docs
                     else if k = ''permissions'' then perms_spec docs
                     else last_value k docs)"
  have "map ?F (result st) = map (\<lambda>kv. ?G (fst kv)) (result st)"
  proof (rule map_cong [OF refl])
    fix kv assume mem: "kv \<in> set (result st)"
    consider (h) "fst kv = ''hooks''" | (p) "fst kv = ''permissions''"
      | (o) "fst kv \<noteq> ''hooks''" "fst kv \<noteq> ''permissions''" by blast
    then show "?F kv = ?G (fst kv)"
    proof cases
      case h
      with mem have "has_key ''hooks'' (result st)" unfolding has_key_def by (metis imageI)
      from D(2) [OF this] h show ?thesis by (simp add: H hooks_closed)
    next
      case p
      with mem have "has_key ''permissions'' (result st)"
        unfolding has_key_def by (metis imageI)
      from D(3) [OF this] p show ?thesis by (simp add: P perms_closed [OF S])
    next
      case o
      from mem dist have "map_of (result st) (fst kv) = Some (snd kv)" by simp
      with top_values [OF o, of "[]" ?its] R
      have "map_of (rev ?its) (fst kv) = Some (snd kv)"
        by (auto split: option.splits)
      with o show ?thesis by (simp add: last_value_def)
    qed
  qed
  then have "map ?F (result st) = map ?G (map fst (result st))" by (simp add: comp_def)
  with r D(1) keys show ?thesis by (simp add: to_json_def merge_spec_def)
qed

subsection \<open>Valid input is merged without error\<close>

lemma valid_entry_get:
  "valid_entry h \<Longrightarrow> \<exists>c. py_get h ''command'' (JStr '''') = Inr (JStr c)"
  by (auto simp: valid_entry_def is_str_def split: json.splits option.splits)

lemma dedupe_loop_ok:
  "list_all valid_entry hs \<Longrightarrow> \<exists>r. dedupe_loop seen res hs = Inr r"
proof (induction hs arbitrary: seen res)
  case Nil
  show ?case by simp
next
  case (Cons h hs)
  from Cons.prems obtain c where "py_get h ''command'' (JStr '''') = Inr (JStr c)"
    using valid_entry_get [of h] by auto
  with Cons show ?case by simp
qed

lemma fromkeys_ok: "list_all is_str xs \<Longrightarrow> \<exists>r. fromkeys ks xs = Inr r"
proof (induction xs arbitrary: ks)
  case Nil
  show ?case by simp
next
  case (Cons x xs)
  from Cons.prems have "hashable x" by (cases x) (auto simp: is_str_def)
  with Cons show ?case by simp
qed

lemma rebuild_ok:
  "list_all (\<lambda>p. list_all valid_entry (snd p)) bm \<Longrightarrow> \<exists>gs. rebuild bm = Inr gs"
proof (induction bm)
  case Nil
  show ?case by simp
next
  case (Cons p bm)
  obtain m hs where p: "p = (m, hs)" by (cases p)
  with Cons.prems obtain ds where "dedupe_hooks hs = Inr ds"
    using dedupe_loop_ok [of hs "{}" "[]"] by (auto simp: dedupe_hooks_def)
  with Cons p show ?case by auto
qed

lemma valid_group_get:
  assumes "valid_group e"
  shows "\<exists>m. py_get e ''matcher'' (JStr '''') = Inr (JStr m)"
    and "\<exists>hs. py_get e ''hooks'' (JArr []) = Inr (JArr hs) \<and> list_all valid_entry hs"
proof -
  from assms obtain kvs where e: "e = JObj kvs"
    by (cases e) (auto simp: valid_group_def)
  show "\<exists>m. py_get e ''matcher'' (JStr '''') = Inr (JStr m)"
    using assms e by (auto simp: valid_group_def is_str_def split: json.splits option.splits)
  show "\<exists>hs. py_get e ''hooks'' (JArr []) = Inr (JArr hs) \<and> list_all valid_entry hs"
  proof (cases "map_of kvs ''hooks''")
    case None
    with e show ?thesis by simp
  next
    case (Some x)
    with assms e show ?thesis by (cases x) (auto simp: valid_group_def)
  qed
qed

lemma valid_group_hooks:
  assumes "valid_group e"
  shows "list_all valid_entry (hooks_of e)"
proof -
  from valid_group_get(2) [OF assms] obtain hs where
    g: "py_get e ''hooks'' (JArr []) = Inr (JArr hs)" and v: "list_all valid_entry hs"
    by blast
  from py_get_Inr [OF g] have "get_or e ''hooks'' (JArr []) = JArr hs" by simp
  then have "hooks_of e = hs"
    by (simp add: hooks_of_def py_elems_def)
  with v show ?thesis by simp
qed

lemma group_by_matcher_ok:
  "list_all valid_group es \<Longrightarrow> \<exists>bm'. group_by_matcher bm es = Inr bm'"
proof (induction es arbitrary: bm)
  case Nil
  show ?case by simp
next
  case (Cons e es)
  from Cons.prems valid_group_get [of e] obtain m hs where
    "py_get e ''matcher'' (JStr '''') = Inr (JStr m)"
    "py_get e ''hooks'' (JArr []) = Inr (JArr hs)" by auto
  with Cons show ?case by simp
qed

lemma regroup_ok:
  assumes "list_all valid_group es"
  shows "\<exists>bm gs. group_by_matcher [] es = Inr bm \<and> rebuild bm = Inr gs"
proof -
  from group_by_matcher_ok [OF assms] obtain bm where bm: "group_by_matcher [] es = Inr bm"
    by blast
  have "list_all valid_entry (gathered_hooks m es)" for m
    using assms valid_group_hooks
    by (auto simp: gathered_hooks_def list_all_iff)
  then have "list_all (\<lambda>p. list_all valid_entry (snd p)) bm"
    unfolding group_by_matcher_closed [OF bm] by (simp add: list_all_iff)
  from rebuild_ok [OF this] bm show ?thesis by blast
qed

lemma dedupe_hook_types_ok:
  "list_all (\<lambda>p. list_all valid_group (snd p)) h \<Longrightarrow> \<exists>h'. dedupe_hook_types h = Inr h'"
proof (induction h)
  case Nil
  show ?case by simp
next
  case (Cons p h)
  obtain t es where p: "p = (t, es)" by (cases p)
  with Cons.prems regroup_ok [of es] obtain bm gs where
    "group_by_matcher [] es = Inr bm" "rebuild bm = Inr gs" by auto
  with Cons p show ?case by auto
qed

lemma dedupe_perm_types_ok:
  "list_all (\<lambda>p. list_all is_str (snd p)) p \<Longrightarrow> \<exists>p'. dedupe_perm_types p = Inr p'"
proof (induction p)
  case Nil
  show ?case by simp
next
  case (Cons q p)
  obtain t xs where q: "q = (t, xs)" by (cases q)
  with Cons.prems fromkeys_ok [of xs "[]"] obtain ps where "fromkeys [] xs = Inr ps" by auto
  with Cons q show ?case by auto
qed

lemma has_key_map_of: "has_key t h \<Longrightarrow> \<exists>xs. map_of h t = Some xs"
  unfolding has_key_def by (metis domD dom_map_of_conv_image_fst)

lemma valid_hook_list_iter: "valid_hook_list v \<Longrightarrow> \<exists>ys. py_iter v = Inr ys"
  by (cases v) (auto simp: valid_hook_list_def)

lemma valid_perm_list_iter: "valid_perm_list v \<Longrightarrow> \<exists>ys. py_iter v = Inr ys"
  by (cases v) (auto simp: valid_perm_list_def)

lemma extend_at_ok:
  assumes "has_key t p" and "py_iter v = Inr ys"
  shows "\<exists>xs. extend_at p t v = Inr (AList.update t (xs @ ys) p)"
  using has_key_map_of [OF assms(1)] assms(2) by (auto simp: extend_at_def)

lemma merge_hook_types_ok:
  "list_all (\<lambda>kv. valid_hook_list (snd kv)) its \<Longrightarrow> \<exists>h'. merge_hook_types h its = Inr h'"
proof (induction its arbitrary: h)
  case Nil
  show ?case by simp
next
  case (Cons kv its)
  obtain t v where kv: "kv = (t, v)" by (cases kv)
  with Cons.prems valid_hook_list_iter [of v] obtain ys where ys: "py_iter v = Inr ys" by auto
  have "has_key t (if has_key t h then h else AList.update t [] h)"
    by (simp add: has_key_update)
  from extend_at_ok [OF this ys] obtain h1 where
    "extend_at (if has_key t h then h else AList.update t [] h) t v = Inr h1" by blast
  with Cons kv show ?case by simp
qed

lemma merge_perm_types_shaped:
  "list_all (\<lambda>kv. valid_perm_list (snd kv)) its \<Longrightarrow>
   (case find (\<lambda>kv. \<not> has_key (fst kv) p) its of
      None \<Rightarrow> \<exists>p'. merge_perm_types p its = Inr p'
    | Some q \<Rightarrow> merge_perm_types p its = Inl (KeyError (fst q)))"
proof (induction its arbitrary: p)
  case Nil
  show ?case by simp
next
  case (Cons kv its)
  obtain t v where kv: "kv = (t, v)" by (cases kv)
  with Cons.prems valid_perm_list_iter [of v] obtain ys where ys: "py_iter v = Inr ys" by auto
  show ?case
  proof (cases "has_key t p")
    case True
    from extend_at_ok [OF True ys] obtain xs where
      p1: "extend_at p t v = Inr (AList.update t (xs @ ys) p)" by blast
    have same: "has_key k (AList.update t (xs @ ys) p) = has_key k p" for k
      using True by (auto simp: has_key_update)
    from Cons.IH [of "AList.update t (xs @ ys) p"] Cons.prems True p1 kv
    show ?thesis by (auto simp: same split: option.splits)
  next
    case False
    then have "map_of p t = None" by (simp add: has_key_def map_of_eq_None_iff)
    with False kv show ?thesis by (auto simp: extend_at_def split: option.splits)
  qed
qed

lemma acc_step_all:
  "list_all (\<lambda>p. list_all Q (snd p)) bm \<Longrightarrow> list_all Q (snd x) \<Longrightarrow>
   list_all (\<lambda>p. list_all Q (snd p)) (acc_step key bm x)"
  by (auto simp: acc_step_def list_all_iff)

lemma foldl_acc_step_all:
  "list_all (\<lambda>p. list_all Q (snd p)) bm \<Longrightarrow> list_all (\<lambda>p. list_all Q (snd p)) xs \<Longrightarrow>
   list_all (\<lambda>p. list_all Q (snd p)) (foldl (acc_step key) bm xs)"
  by (induction xs arbitrary: bm) (simp_all add: acc_step_all)

lemma valid_hooks_items:
  "valid_hooks v \<Longrightarrow> list_all (\<lambda>kv. valid_hook_list (snd kv)) (dict_of v)"
  by (cases v) (auto simp: valid_hooks_def dict_of_def)

lemma shaped_permissions_items:
  "shaped_permissions v \<Longrightarrow> list_all (\<lambda>kv. valid_perm_list (snd kv)) (dict_of v)"
  by (cases v) (auto simp: shaped_permissions_def dict_of_def)

lemma section_items_all:
  assumes "\<And>kv. kv \<in> set its \<Longrightarrow> fst kv = s \<Longrightarrow> list_all Q (dict_of (snd kv))"
  shows "list_all Q (section_items s its)"
  using assms by (induction its) (auto simp: section_items_def)

lemma shaped_hooks_items:
  "list_all shaped_item its \<Longrightarrow>
   list_all (\<lambda>kv. valid_hook_list (snd kv)) (section_items ''hooks'' its)"
proof (rule section_items_all)
  fix kv assume "list_all shaped_item its" "kv \<in> set its" "fst kv = ''hooks''"
  then have "valid_hooks (snd kv)" by (auto simp: list_all_iff shaped_item_def)
  then show "list_all (\<lambda>kv. valid_hook_list (snd kv)) (dict_of (snd kv))"
    by (rule valid_hooks_items)
qed

lemma shaped_perms_items:
  "list_all shaped_item its \<Longrightarrow>
   list_all (\<lambda>kv. valid_perm_list (snd kv)) (section_items ''permissions'' its)"
proof (rule section_items_all)
  fix kv assume "list_all shaped_item its" "kv \<in> set its" "fst kv = ''permissions''"
  then have "shaped_permissions (snd kv)" by (auto simp: list_all_iff shaped_item_def)
  then show "list_all (\<lambda>kv. valid_perm_list (snd kv)) (dict_of (snd kv))"
    by (rule shaped_permissions_items)
qed

lemma valid_hook_list_elems: "valid_hook_list v \<Longrightarrow> list_all valid_group (py_elems v)"
  by (cases v) (auto simp: valid_hook_list_def py_elems_def)

lemma valid_perm_list_elems: "valid_perm_list v \<Longrightarrow> list_all is_str (py_elems v)"
  by (cases v) (auto simp: valid_perm_list_def py_elems_def)

lemma merge_item_shaped:
  assumes "shaped_item kv"
    and "\<And>t. has_key t (current_permissions st) = known_perm_type t"
  shows "case first_unknown [kv] of
           None \<Rightarrow> \<exists>st'. merge_item st kv = Inr st'
         | Some q \<Rightarrow> merge_item st kv = Inl (KeyError (fst q))"
proof -
  obtain k v where kv: "kv = (k, v)" by (cases kv)
  consider (h) "k = ''hooks''" | (p) "k = ''permissions''"
    | (o) "k \<noteq> ''hooks''" "k \<noteq> ''permissions''" by blast
  then show ?thesis
  proof cases
    case h
    with assms(1) kv have "valid_hooks v" by (simp add: shaped_item_def)
    then obtain its where v: "v = JObj its"
      and its: "list_all (\<lambda>kv. valid_hook_list (snd kv)) its"
      by (cases v) (auto simp: valid_hooks_def)
    have none: "first_unknown [kv] = None"
      using h kv by (simp add: first_unknown_def section_items_single)
    let ?st1 = "if has_key ''hooks'' (result st) then st
                else st\<lparr>result := AList.update ''hooks'' JNull (result st),
                        result_hooks := []\<rparr>"
    from merge_hook_types_ok [OF its] obtain h' where
      "merge_hook_types (result_hooks ?st1) its = Inr h'" by blast
    then have "merge_item st kv = Inr (?st1\<lparr>result_hooks := h'\<rparr>)"
      unfolding kv h v by (simp add: Let_def)
    with none show ?thesis by simp
  next
    case p
    with assms(1) kv have "shaped_permissions v" by (simp add: shaped_item_def)
    then obtain its where v: "v = JObj its"
      and its: "list_all (\<lambda>kv. valid_perm_list (snd kv)) its"
      by (cases v) (auto simp: shaped_permissions_def)
    let ?st1 = "if has_key ''permissions'' (result st) then st
                else st\<lparr>result := AList.update ''permissions'' JNull (result st),
                        result_permissions := [(''allow'', []), (''deny'', []), (''ask'', [])]\<rparr>"
    have cur: "result_permissions ?st1 = current_permissions st"
      by (simp add: current_permissions_def)
    have fu: "first_unknown [kv] = find (\<lambda>q. \<not> has_key (fst q) (current_permissions st)) its"
      using p kv v by (simp add: first_unknown_def section_items_single dict_of_def assms(2))
    have item: "merge_item st kv =
        (case merge_perm_types (current_permissions st) its of
           Inl e \<Rightarrow> Inl e
         | Inr p' \<Rightarrow> Inr (?st1\<lparr>result_permissions := p'\<rparr>))"
      unfolding kv p v using cur by (simp add: Let_def)
    show ?thesis
    proof (cases "find (\<lambda>q. \<not> has_key (fst q) (current_permissions st)) its")
      case None
      with merge_perm_types_shaped [OF its, of "current_permissions st"]
      obtain p' where "merge_perm_types (current_permissions st) its = Inr p'" by auto
      with None fu item show ?thesis by simp
    next
      case (Some q)
      with merge_perm_types_shaped [OF its, of "current_permissions st"]
      have "merge_perm_types (current_permissions st) its = Inl (KeyError (fst q))" by simp
      with Some fu item show ?thesis by simp
    qed
  next
    case o
    then show ?thesis
      using kv by (simp add: first_unknown_def section_items_single)
  qed
qed

lemma find_app:
  "find P (xs @ ys) = (case find P xs of None \<Rightarrow> find P ys | Some x \<Rightarrow> Some x)"
  by (induction xs) auto

lemma first_unknown_Cons:
  "first_unknown (kv # its) =
     (case first_unknown [kv] of None \<Rightarrow> first_unknown its | Some q \<Rightarrow> Some q)"
proof -
  have "section_items ''permissions'' (kv # its) =
        section_items ''permissions'' [kv] @ section_items ''permissions'' its"
    using section_items_append [of "''permissions''" "[kv]" its] by simp
  then show ?thesis
    unfolding first_unknown_def by (simp only: find_app)
qed

lemma merge_items_shaped:
  "list_all shaped_item its \<Longrightarrow>
   distinct (map fst (current_hooks st)) \<Longrightarrow>
   distinct (map fst (current_permissions st)) \<Longrightarrow>
   (\<And>t. has_key t (current_permissions st) = known_perm_type t) \<Longrightarrow>
   (case first_unknown its of
      None \<Rightarrow> \<exists>st'. merge_items st its = Inr st'
    | Some q \<Rightarrow> merge_items st its = Inl (KeyError (fst q)))"
proof (induction its arbitrary: st)
  case Nil
  show ?case by (simp add: first_unknown_def section_items_def)
next
  case (Cons kv its)
  from Cons.prems(1) have kv: "shaped_item kv" and its: "list_all shaped_item its" by simp_all
  note item = merge_item_shaped [OF kv Cons.prems(4)]
  show ?case
  proof (cases "first_unknown [kv]")
    case (Some q)
    then have "first_unknown (kv # its) = Some q"
      using first_unknown_Cons [of kv its] by simp
    with item Some show ?thesis by simp
  next
    case None
    then have fu: "first_unknown (kv # its) = first_unknown its"
      using first_unknown_Cons [of kv its] by simp
    from None item obtain st1 where st1: "merge_item st kv = Inr st1" by auto
    note step = merge_item_Inr [OF st1 Cons.prems(2) Cons.prems(3)]
    have dh: "distinct (map fst (current_hooks st1))"
      unfolding step(2) by (rule foldl_acc_step_distinct_id [OF Cons.prems(2)])
    have dp: "distinct (map fst (current_permissions st1))"
      unfolding step(3) by (rule foldl_acc_step_distinct_id [OF Cons.prems(3)])
    have keys: "fst ` set (current_permissions st1) = fst ` set (current_permissions st)"
      unfolding step(3)
      using foldl_acc_step_keys [of "\<lambda>k. k" "current_permissions st"
              "map elems_item (section_items ''permissions'' [kv])"] step(4)
      by (auto simp: elems_item_def image_image)
    have known: "has_key t (current_permissions st1) = known_perm_type t" for t
      using Cons.prems(4) [of t] keys by (simp add: has_key_def)
    from Cons.IH [OF its dh dp known] st1 show ?thesis
      unfolding fu by (auto split: option.splits)
  qed
qed

lemma merge_dicts_items:
  "\<forall>d\<in>set docs. \<exists>kvs. d = JObj kvs \<Longrightarrow>
   merge_dicts st docs = merge_items st (all_items docs)"
proof (induction docs arbitrary: st)
  case Nil
  show ?case by (simp add: all_items_def)
next
  case (Cons d docs)
  from Cons.prems obtain its where d: "d = JObj its" by auto
  have all: "all_items (d # docs) = its @ all_items docs"
    by (simp add: all_items_def d dict_of_def)
  from Cons.IH Cons.prems show ?case
    unfolding all by (auto simp: d merge_items_append split: sum.splits)
qed

lemma dedupe_state_ok:
  assumes "list_all (\<lambda>p. list_all valid_group (snd p)) (current_hooks st)"
    and "list_all (\<lambda>p. list_all is_str (snd p)) (current_permissions st)"
  shows "\<exists>st2. dedupe_state st = Inr st2"
proof -
  have "\<exists>h. (if has_key ''hooks'' (result st) then dedupe_hook_types (result_hooks st)
              else Inr (result_hooks st)) = Inr h"
    using assms(1) dedupe_hook_types_ok [of "result_hooks st"]
    by (auto simp: current_hooks_def)
  moreover
  have "\<exists>p. (if has_key ''permissions'' (result st)
              then dedupe_perm_types (result_permissions st)
              else Inr (result_permissions st)) = Inr p"
    using assms(2) dedupe_perm_types_ok [of "result_permissions st"]
    by (auto simp: current_permissions_def)
  ultimately show ?thesis
    by (auto simp: dedupe_state_def)
qed

lemma shaped_doc_items:
  "list_all shaped_doc docs \<Longrightarrow>
   (\<forall>d\<in>set docs. \<exists>kvs. d = JObj kvs) \<and> list_all shaped_item (all_items docs)"
proof (induction docs)
  case Nil
  show ?case by (simp add: all_items_def)
next
  case (Cons d docs)
  from Cons.prems obtain kvs where "d = JObj kvs" "list_all shaped_item kvs"
    by (cases d) (auto simp: shaped_doc_def)
  with Cons show ?case by (simp add: all_items_def dict_of_def)
qed

lemma elems_items_all:
  assumes "list_all (\<lambda>kv. list_all Q (py_elems (snd kv))) si"
  shows "list_all (\<lambda>p. list_all Q (snd p)) (map elems_item si)"
  using assms by (simp add: list_all_iff elems_item_def)

lemma merge_settings_shaped:
  assumes "list_all shaped_doc docs"
  shows "merge_settings docs =
     (case first_unknown (all_items docs) of
        None \<Rightarrow> Inr (merge_spec docs)
      | Some q \<Rightarrow> Inl (KeyError (fst q)))"
proof -
  let ?its = "all_items docs"
  from shaped_doc_items [OF assms]
  have dicts: "\<forall>d\<in>set docs. \<exists>kvs. d = JObj kvs" and its: "list_all shaped_item ?its"
    by simp_all
  have md: "merge_dicts empty_state docs = merge_items empty_state ?its"
    by (rule merge_dicts_items [OF dicts])
  have e: "current_hooks empty_state = []"
    "current_permissions empty_state = [(''allow'', []), (''deny'', []), (''ask'', [])]"
    by (simp_all add: empty_state_def current_hooks_def current_permissions_def has_key_def)
  have known: "has_key t (current_permissions empty_state) = known_perm_type t" for t
    by (auto simp: e has_key_def known_perm_type_def)
  have shaped: "case first_unknown ?its of
      None \<Rightarrow> \<exists>st'. merge_items empty_state ?its = Inr st'
    | Some q \<Rightarrow> merge_items empty_state ?its = Inl (KeyError (fst q))"
    by (rule merge_items_shaped [OF its _ _ known]) (simp_all add: e)
  show ?thesis
  proof (cases "first_unknown ?its")
    case (Some q)
    with shaped md show ?thesis by (simp add: merge_settings_def)
  next
    case None
    with shaped obtain st where st: "merge_items empty_state ?its = Inr st" by auto
    from merge_items_Inr [OF st] e
    have H: "current_hooks st =
              foldl (acc_step (\<lambda>k. k)) [] (map elems_item (section_items ''hooks'' ?its))"
      and P: "current_permissions st =
              foldl (acc_step (\<lambda>k. k)) [(''allow'', []), (''deny'', []), (''ask'', [])]
                (map elems_item (section_items ''permissions'' ?its))"
      by simp_all
    have "list_all (\<lambda>kv. list_all valid_group (py_elems (snd kv))) (section_items ''hooks'' ?its)"
      using shaped_hooks_items [OF its] valid_hook_list_elems by (auto simp: list_all_iff)
    then have vh: "list_all (\<lambda>p. list_all valid_group (snd p)) (current_hooks st)"
      unfolding H by (intro foldl_acc_step_all elems_items_all) simp_all
    have "list_all (\<lambda>kv. list_all is_str (py_elems (snd kv))) (section_items ''permissions'' ?its)"
      using shaped_perms_items [OF its] valid_perm_list_elems by (auto simp: list_all_iff)
    then have vp: "list_all (\<lambda>p. list_all is_str (snd p)) (current_permissions st)"
      unfolding P by (intro foldl_acc_step_all elems_items_all) simp_all
    from dedupe_state_ok [OF vh vp] obtain st2 where st2: "dedupe_state st = Inr st2" by blast
    have ms: "merge_settings docs = Inr (to_json st2)"
      using md st st2 by (simp add: merge_settings_def)
    from merge_settings_Inr [OF ms] ms None show ?thesis by simp
  qed
qed

lemma valid_doc_shaped: "valid_doc d \<Longrightarrow> shaped_doc d"
  by (cases d)
     (auto simp: valid_doc_def shaped_doc_def valid_item_def shaped_item_def
        valid_permissions_def list_all_iff)

lemma valid_docs_known:
  "list_all valid_doc docs \<Longrightarrow>
   list_all (\<lambda>q. known_perm_type (fst q)) (section_items ''permissions'' (all_items docs))"
proof (rule section_items_all)
  fix kv assume docs: "list_all valid_doc docs" and kv: "kv \<in> set (all_items docs)"
    and k: "fst kv = ''permissions''"
  from kv obtain d where d: "d \<in> set docs" and "kv \<in> set (dict_of d)"
    by (auto simp: all_items_def)
  with docs have "valid_item kv"
    by (cases d) (auto simp: list_all_iff valid_doc_def dict_of_def)
  with k show "list_all (\<lambda>q. known_perm_type (fst q)) (dict_of (snd kv))"
    by (simp add: valid_item_def valid_permissions_def)
qed

lemma merge_settings_valid:
  assumes "list_all valid_doc docs"
  shows "merge_settings docs = Inr (merge_spec docs)"
proof -
  have "list_all shaped_doc docs"
    using assms valid_doc_shaped by (auto simp: list_all_iff)
  moreover have "first_unknown (all_items docs) = None"
    using valid_docs_known [OF assms] by (auto simp: first_unknown_def find_None_iff list_all_iff)
  ultimately show ?thesis
    using merge_settings_shaped [of docs] by simp
qed

subsection \<open>Reading the merged document\<close>

lemma map_of_tabulate:
  "map_of (map (\<lambda>k. (k, f k)) ks) k = (if k \<in> set ks then Some (f k) else None)"
  by (induction ks) auto

lemma firsts_id_set: "set (firsts id {} xs) = set xs"
  using firsts_keys [of id "{}" xs] by simp

lemma lookup_merge_spec:
  "lookup (merge_spec docs) k =
     (if k \<in> fst ` set (all_items docs)
      then Some (if k = ''hooks'' then hooks_spec docs
                 else if k = ''permissions'' then perms_spec docs
                 else last_value k docs)
      else None)"
  by (simp add: lookup_def merge_spec_def dict_of_def map_of_tabulate firsts_id_set)

lemma lookup_hooks_spec:
  "lookup (hooks_spec docs) t =
     (if t \<in> set (hook_types docs) then Some (JArr (group_spec (hook_entries t docs)))
      else None)"
  by (simp add: lookup_def hooks_spec_def dict_of_def map_of_tabulate)

lemma key_in_all_items:
  "k \<in> fst ` set (all_items docs) \<longleftrightarrow> (\<exists>d\<in>set docs. lookup d k \<noteq> None)"
  by (auto simp: all_items_def lookup_def map_of_eq_None_iff)

lemma merge_all_empty: "merge_settings (replicate n (JObj [])) = Inr (JObj [])"
proof -
  have "list_all valid_doc (replicate n (JObj []))"
    by (simp add: list_all_iff valid_doc_def)
  moreover have "all_items (replicate n (JObj [])) = []"
    by (induction n) (simp_all add: all_items_def dict_of_def)
  ultimately show ?thesis
    by (simp add: merge_settings_valid merge_spec_def)
qed

lemma matcher_of_group [simp]:
  "matcher_of (JObj [(''matcher'', m), (''hooks'', JArr hs)]) = m"
  by (simp add: matcher_of_def get_or_def dict_of_def)

lemma hooks_of_group [simp]:
  "hooks_of (JObj [(''matcher'', m), (''hooks'', JArr hs)]) = hs"
  by (simp add: hooks_of_def get_or_def dict_of_def py_elems_def)

lemma matcher_key_group [simp]:
  "matcher_key (JObj [(''matcher'', m), (''hooks'', JArr hs)]) = py_key m"
  by (simp add: matcher_key_def)

lemma group_spec_matchers:
  "map matcher_of (group_spec es) = map matcher_of (firsts matcher_key {} es)"
  by (simp add: group_spec_def comp_def)

lemma group_spec_keys:
  "map matcher_key (group_spec es) = map matcher_key (firsts matcher_key {} es)"
  by (simp add: group_spec_def comp_def matcher_key_def [symmetric])

lemma group_spec_distinct: "distinct (map matcher_key (group_spec es))"
  unfolding group_spec_keys by (rule firsts_distinct)

lemma group_spec_member:
  assumes "g \<in> set (group_spec es)"
  shows "g = JObj [(''matcher'', matcher_of g),
                  (''hooks'', JArr (firsts command_key {} (gathered_hooks (matcher_of g) es)))]"
  using assms by (auto simp: group_spec_def)

lemma group_spec_hooks:
  assumes "g \<in> set (group_spec es)"
  shows "hooks_of g = firsts command_key {} (gathered_hooks (matcher_of g) es)"
  using arg_cong [OF group_spec_member [OF assms], of hooks_of] by simp

lemma merged_hook_list:
  assumes "merge_settings docs = Inr r" and "lookup r ''hooks'' = Some h"
    and "lookup h t = Some l"
  shows "l = JArr (group_spec (hook_entries t docs))"
proof -
  have r: "r = merge_spec docs" by (rule merge_settings_Inr [OF assms(1)])
  from assms(2) have "h = hooks_spec docs"
    unfolding r by (auto simp: lookup_merge_spec split: if_splits)
  with assms(3) show ?thesis
    by (auto simp: lookup_hooks_spec split: if_splits)
qed

lemma filter_key_le_one:
  "distinct (map f xs) \<Longrightarrow> length (filter (\<lambda>x. f x = c) xs) \<le> 1"
  by (induction xs) (auto simp: filter_empty_conv image_iff)

lemma blank_command_key: "blank_command h \<longleftrightarrow> command_key h = JStr ''''"
proof -
  have "py_key c = JStr '''' \<longleftrightarrow> c = JStr ''''" for c by (cases c) auto
  then show ?thesis
    by (auto simp: blank_command_def command_key_def get_or_def lookup_def split: option.splits)
qed

lemma merged_group_hooks:
  assumes "merge_settings docs = Inr r" and "lookup r ''hooks'' = Some h"
    and "lookup h t = Some (JArr gs)" and "g \<in> set gs"
  shows "hooks_of g =
           firsts command_key {} (gathered_hooks (matcher_of g) (hook_entries t docs))"
proof -
  from merged_hook_list [OF assms(1-3)] assms(4)
  have "g \<in> set (group_spec (hook_entries t docs))" by simp
  then show ?thesis by (rule group_spec_hooks)
qed

subsection \<open>What a merge without error says of its input\<close>

lemma merge_item_section_dict:
  assumes "merge_item st kv = Inr st'" and "fst kv = ''hooks'' \<or> fst kv = ''permissions''"
  shows "is_dict (snd kv)"
proof -
  obtain k v where kv: "kv = (k, v)" by (cases kv)
  from assms kv obtain its where "py_items v = Inr its"
    by (auto simp: Let_def split: sum.splits if_splits)
  from py_items_Inr [OF this] kv show ?thesis by (simp add: is_dict_def)
qed

lemma merge_items_section_dicts:
  "merge_items st its = Inr st' \<Longrightarrow>
   \<forall>kv\<in>set its. fst kv = ''hooks'' \<or> fst kv = ''permissions'' \<longrightarrow> is_dict (snd kv)"
proof (induction its arbitrary: st)
  case Nil
  show ?case by simp
next
  case (Cons kv its)
  from Cons.prems obtain st1 where
    st1: "merge_item st kv = Inr st1" and rest: "merge_items st1 its = Inr st'"
    by (auto split: sum.splits)
  from Cons.IH [OF rest] merge_item_section_dict [OF st1] show ?case by auto
qed

lemma merge_settings_Inr_input:
  assumes "merge_settings docs = Inr r"
  shows "\<forall>d\<in>set docs. is_dict d"
    and "\<forall>kv\<in>set (all_items docs).
           fst kv = ''hooks'' \<or> fst kv = ''permissions'' \<longrightarrow> is_dict (snd kv)"
    and "list_all (\<lambda>q. known_perm_type (fst q)) (section_items ''permissions'' (all_items docs))"
proof -
  from assms obtain st where st: "merge_dicts empty_state docs = Inr st"
    by (auto simp: merge_settings_def split: sum.splits)
  from merge_dicts_Inr [OF st]
  have items: "merge_items empty_state (all_items docs) = Inr st"
    and dicts: "\<forall>d\<in>set docs. \<exists>kvs. d = JObj kvs" by simp_all
  from dicts show "\<forall>d\<in>set docs. is_dict d" by (auto simp: is_dict_def)
  from merge_items_section_dicts [OF items]
  show "\<forall>kv\<in>set (all_items docs).
           fst kv = ''hooks'' \<or> fst kv = ''permissions'' \<longrightarrow> is_dict (snd kv)" .
  have e: "current_hooks empty_state = []"
    "current_permissions empty_state = [(''allow'', []), (''deny'', []), (''ask'', [])]"
    by (simp_all add: empty_state_def current_hooks_def current_permissions_def has_key_def)
  from merge_items_Inr [OF items] e
  have "fst ` set (section_items ''permissions'' (all_items docs))
          \<subseteq> {''allow'', ''deny'', ''ask''}" by simp
  then show "list_all (\<lambda>q. known_perm_type (fst q))
               (section_items ''permissions'' (all_items docs))"
    by (auto simp: list_all_iff known_perm_type_def)
qed

lemma not_Inr_is_Inl: "(\<And>r. x \<noteq> Inr r) \<Longrightarrow> \<exists>e. x = Inl e"
  by (cases x) auto

lemma lookup_in_all_items:
  "d \<in> set docs \<Longrightarrow> lookup d k = Some v \<Longrightarrow> (k, v) \<in> set (all_items docs)"
  by (auto simp: lookup_def all_items_def dest: map_of_SomeD)

lemma section_items_member:
  "(k, v) \<in> set its \<Longrightarrow> set (dict_of v) \<subseteq> set (section_items k its)"
  by (induction its) (auto simp: section_items_def)

lemma unknown_perm_type_item:
  assumes "unknown_perm_type_in docs"
  shows "\<exists>q\<in>set (section_items ''permissions'' (all_items docs)). \<not> known_perm_type (fst q)"
proof -
  from assms obtain d p q where d: "d \<in> set docs" and p: "lookup d ''permissions'' = Some p"
    and q: "q \<in> set (dict_of p)" "\<not> known_perm_type (fst q)"
    by (auto simp: unknown_perm_type_in_def list_ex_iff split: option.splits)
  from section_items_member [OF lookup_in_all_items [OF d p]] q show ?thesis by blast
qed

subsection \<open>Unrecognized keys do not touch the sections\<close>

lemma merge_item_known:
  assumes "same_sections st st'" and "known_key kv"
  shows "rel_sum (=) same_sections (merge_item st kv) (merge_item st' kv)"
proof -
  obtain k v where kv: "kv = (k, v)" by (cases kv)
  from assms(2) kv consider "k = ''hooks''" | "k = ''permissions''"
    by (auto simp: known_key_def)
  then show ?thesis
  proof cases
    case 1
    with assms(1) kv show ?thesis
      by (auto simp: same_sections_def Let_def has_key_update split: sum.splits)
  next
    case 2
    with assms(1) kv show ?thesis
      by (auto simp: same_sections_def Let_def has_key_update split: sum.splits)
  qed
qed

lemma merge_item_unknown:
  assumes "\<not> known_key kv"
  shows "\<exists>st1. merge_item st kv = Inr st1 \<and> same_sections st st1"
  using assms
  by (cases kv) (auto simp: known_key_def same_sections_def has_key_update)

lemma same_sections_trans:
  "same_sections a b \<Longrightarrow> same_sections b c \<Longrightarrow> same_sections a c"
  by (simp add: same_sections_def)

lemma same_sections_sym: "same_sections a b \<Longrightarrow> same_sections b a"
  by (simp add: same_sections_def)

lemma merge_items_known:
  "same_sections st st' \<Longrightarrow>
   rel_sum (=) same_sections (merge_items st its) (merge_items st' (filter known_key its))"
proof (induction its arbitrary: st st')
  case Nil
  then show ?case by simp
next
  case (Cons kv its)
  show ?case
  proof (cases "known_key kv")
    case True
    from merge_item_known [OF Cons.prems True] Cons.IH True show ?thesis
      by (cases "merge_item st kv"; cases "merge_item st' kv") auto
  next
    case False
    from merge_item_unknown [OF False, of st] obtain st1 where
      st1: "merge_item st kv = Inr st1" and same: "same_sections st st1" by blast
    from same Cons.prems have "same_sections st1 st'"
      by (blast intro: same_sections_trans same_sections_sym)
    from Cons.IH [OF this] st1 False show ?thesis by simp
  qed
qed

lemma merge_dicts_known:
  "same_sections st st' \<Longrightarrow>
   rel_sum (=) same_sections (merge_dicts st docs) (merge_dicts st' (map known_only docs))"
proof (induction docs arbitrary: st st')
  case Nil
  then show ?case by simp
next
  case (Cons d docs)
  show ?case
  proof (cases "is_dict d")
    case False
    then show ?thesis by (cases d) (auto simp: is_dict_def known_only_def)
  next
    case True
    then obtain kvs where d: "d = JObj kvs" by (cases d) (auto simp: is_dict_def)
    from merge_items_known [OF Cons.prems, of kvs] Cons.IH d show ?thesis
      by (cases "merge_items st kvs"; cases "merge_items st' (filter known_key kvs)")
         (auto simp: known_only_def)
  qed
qed

lemma dedupe_state_known:
  "same_sections st st' \<Longrightarrow>
   rel_sum (=) (\<lambda>a b. same_sections a b) (dedupe_state st) (dedupe_state st')"
  by (auto simp: dedupe_state_def same_sections_def split: sum.splits)

lemma merge_settings_known:
  "merge_settings docs = Inl e \<longleftrightarrow> merge_settings (map known_only docs) = Inl e"
proof -
  have same: "same_sections empty_state empty_state" by (simp add: same_sections_def)
  note md = merge_dicts_known [OF same, of docs]
  show ?thesis
  proof (cases "merge_dicts empty_state docs")
    case (Inl e1)
    with md show ?thesis
      by (cases "merge_dicts empty_state (map known_only docs)")
         (auto simp: merge_settings_def)
  next
    case (Inr st)
    with md obtain st' where st': "merge_dicts empty_state (map known_only docs) = Inr st'"
      and s: "same_sections st st'"
      by (cases "merge_dicts empty_state (map known_only docs)") auto
    from dedupe_state_known [OF s] Inr st' show ?thesis
      by (cases "dedupe_state st"; cases "dedupe_state st'") (auto simp: merge_settings_def)
  qed
qed

subsection \<open>The last document with a key\<close>

lemma map_of_rev_distinct: "distinct (map fst xs) \<Longrightarrow> map_of (rev xs) k = map_of xs k"
proof (induction xs)
  case Nil
  show ?case by simp
next
  case (Cons x xs)
  then have IH: "map_of (rev xs) k = map_of xs k" by simp
  show ?case
  proof (cases "k = fst x")
    case True
    with Cons.prems have "map_of xs k = None" by (simp add: map_of_eq_None_iff)
    with IH True show ?thesis by (cases x) (simp add: map_add_def)
  next
    case False
    with IH show ?thesis by (cases x) (simp add: map_add_def split: option.splits)
  qed
qed

lemma last_with_key_Some: "last_with_key k docs = Some d \<Longrightarrow> lookup d k \<noteq> None"
  by (auto simp: last_with_key_def find_Some_iff)

lemma last_with_key_Cons:
  "last_with_key k (d # docs) =
     (case last_with_key k docs of
        None \<Rightarrow> if lookup d k \<noteq> None then Some d else None
      | Some d' \<Rightarrow> Some d')"
  by (auto simp: last_with_key_def find_app split: option.splits)

lemma last_item_last_doc:
  "list_all (\<lambda>d. distinct (map fst (dict_of d))) docs \<Longrightarrow>
   map_of (rev (all_items docs)) k =
     (case last_with_key k docs of None \<Rightarrow> None | Some d \<Rightarrow> lookup d k)"
proof (induction docs)
  case Nil
  show ?case by (simp add: all_items_def last_with_key_def)
next
  case (Cons d docs)
  then have IH: "map_of (rev (all_items docs)) k =
     (case last_with_key k docs of None \<Rightarrow> None | Some d \<Rightarrow> lookup d k)"
    and dist: "distinct (map fst (dict_of d))" by simp_all
  have split: "map_of (rev (all_items (d # docs))) k =
     (case map_of (rev (all_items docs)) k of
        None \<Rightarrow> map_of (dict_of d) k | Some v \<Rightarrow> Some v)"
    by (simp add: all_items_def map_add_def map_of_rev_distinct [OF dist]
          split: option.splits)
  show ?case
  proof (cases "last_with_key k docs")
    case None
    with IH split show ?thesis
      by (auto simp: last_with_key_Cons lookup_def)
  next
    case (Some d')
    from last_with_key_Some [OF Some] obtain v where "lookup d' k = Some v" by auto
    with Some IH split show ?thesis by (simp add: last_with_key_Cons)
  qed
qed

subsection \<open>Dicts with distinct keys\<close>

lemma filter_unique_key:
  "distinct (map f xs) \<Longrightarrow> x \<in> set xs \<Longrightarrow> filter (\<lambda>e. f e = f x) xs = [x]"
proof (induction xs)
  case Nil
  then show ?case by simp
next
  case (Cons a xs)
  show ?case
  proof (cases "x = a")
    case True
    from Cons.prems(1) have "\<forall>e\<in>set xs. f e \<noteq> f a" by (metis distinct.simps(2) imageI list.simps(9) set_map)
    then have "filter (\<lambda>e. f e = f a) xs = []" by (simp add: filter_empty_conv)
    with True show ?thesis by simp
  next
    case False
    with Cons.prems have x: "x \<in> set xs" by simp
    with Cons.prems(1) have "f a \<noteq> f x" by (metis distinct.simps(2) imageI list.simps(9) set_map)
    with Cons x show ?thesis by simp
  qed
qed

lemma filter_key_pair:
  assumes "distinct (map fst its)" and "(k, v) \<in> set its"
  shows "filter (\<lambda>kv. fst kv = k) its = [(k, v)]"
  using filter_unique_key [OF assms] by simp

lemma filter_key_absent: "k \<notin> fst ` set its \<Longrightarrow> filter (\<lambda>kv. fst kv = k) its = []"
  by (auto simp: filter_empty_conv)

lemma section_items_distinct:
  "distinct (map fst its) \<Longrightarrow> (k, v) \<in> set its \<Longrightarrow> section_items k its = dict_of v"
  by (simp add: section_items_def filter_key_pair)

lemma arrivals_distinct:
  "distinct (map fst sits) \<Longrightarrow> (t, v) \<in> set sits \<Longrightarrow> arrivals t sits = py_elems v"
  by (simp add: arrivals_def filter_key_pair)

lemma arrivals_absent: "t \<notin> fst ` set sits \<Longrightarrow> arrivals t sits = []"
  by (simp add: arrivals_def filter_key_absent)

subsection \<open>Canonical documents are fixed\<close>

lemma canonical_groupE:
  assumes "canonical_group g"
  obtains m hs where "g = JObj [(''matcher'', JStr m), (''hooks'', JArr hs)]"
    and "list_all valid_entry hs" and "distinct (map command_key hs)"
proof -
  from assms obtain m where "matcher_of g = JStr m"
    by (cases "matcher_of g") (auto simp: canonical_group_def is_str_def)
  with assms that [of m "hooks_of g"] show thesis
    by (simp add: canonical_group_def)
qed

lemma group_spec_fixed:
  assumes "list_all canonical_group gs" and "distinct (map matcher_key gs)"
  shows "group_spec gs = gs"
proof -
  have "JObj [(''matcher'', matcher_of g),
              (''hooks'', JArr (firsts command_key {} (gathered_hooks (matcher_of g) gs)))] = g"
    if g: "g \<in> set gs" for g
  proof -
    from assms(1) g have "canonical_group g" by (simp add: list_all_iff)
    then obtain m hs where gm: "g = JObj [(''matcher'', JStr m), (''hooks'', JArr hs)]"
      and d: "distinct (map command_key hs)" by (rule canonical_groupE)
    have "filter (\<lambda>e. matcher_key e = matcher_key g) gs = [g]"
      by (rule filter_unique_key [OF assms(2) g])
    then have "gathered_hooks (matcher_of g) gs = hooks_of g"
      by (simp add: gathered_hooks_def matcher_key_def)
    moreover have "firsts command_key {} hs = hs"
      using d by (simp add: firsts_fixed)
    ultimately show ?thesis by (simp add: gm)
  qed
  moreover have "firsts matcher_key {} gs = gs"
    using assms(2) by (simp add: firsts_fixed)
  ultimately show ?thesis
    by (simp add: group_spec_def map_idI)
qed

lemma all_items_single: "all_items [JObj its] = its"
  by (simp add: all_items_def dict_of_def)

lemma hooks_spec_fixed:
  assumes "canonical_hooks v" and "distinct (map fst its)" and "(''hooks'', v) \<in> set its"
  shows "hooks_spec [JObj its] = v"
proof -
  from assms(1) obtain hs where v: "v = JObj hs" and dh: "distinct (map fst hs)"
    and lists: "list_all (\<lambda>kv. canonical_hook_list (snd kv)) hs"
    by (cases v) (auto simp: canonical_hooks_def)
  have si: "section_items ''hooks'' its = hs"
    using section_items_distinct [OF assms(2,3)] by (simp add: v dict_of_def)
  have types: "hook_types [JObj its] = map fst hs"
    using dh by (simp add: hook_types_def all_items_single si firsts_fixed)
  have "(fst kv, JArr (group_spec (hook_entries (fst kv) [JObj its]))) = kv"
    if kv: "kv \<in> set hs" for kv
  proof -
    obtain t l where tl: "kv = (t, l)" by (cases kv)
    from lists kv tl have "canonical_hook_list l" by (auto simp: list_all_iff)
    then obtain gs where l: "l = JArr gs" and c: "list_all canonical_group gs"
      and d: "distinct (map matcher_key gs)"
      by (cases l) (auto simp: canonical_hook_list_def)
    have "hook_entries t [JObj its] = gs"
      using arrivals_distinct [OF dh, of t l] kv tl
      by (simp add: hook_entries_def all_items_single si l py_elems_def)
    with group_spec_fixed [OF c d] tl l show ?thesis by simp
  qed
  then have "map (\<lambda>kv. (fst kv, JArr (group_spec (hook_entries (fst kv) [JObj its])))) hs = hs"
    by (rule map_idI)
  then show ?thesis
    by (simp add: hooks_spec_def types v comp_def)
qed

lemma firsts_strings_fixed:
  assumes "list_all is_str xs" and "distinct xs"
  shows "firsts py_key {} xs = xs"
proof -
  have "py_key x = x" if "x \<in> set xs" for x
    using assms(1) that by (cases x) (auto simp: list_all_iff is_str_def)
  then have "map py_key xs = xs" by (rule map_idI)
  with assms(2) show ?thesis by (simp add: firsts_fixed)
qed

lemma canonical_permissionsE:
  assumes "canonical_permissions v"
  obtains a d k where "v = JObj [(''allow'', JArr a), (''deny'', JArr d), (''ask'', JArr k)]"
    and "list_all is_str a" "list_all is_str d" "list_all is_str k"
    and "distinct a" "distinct d" "distinct k"
  using assms that [of "perm_list v ''allow''" "perm_list v ''deny''" "perm_list v ''ask''"]
  by (simp add: canonical_permissions_def)

lemma perms_spec_fixed:
  assumes "canonical_permissions v" and "distinct (map fst its)"
    and "(''permissions'', v) \<in> set its"
  shows "perms_spec [JObj its] = v"
proof -
  from assms(1) obtain a d k where
    v: "v = JObj [(''allow'', JArr a), (''deny'', JArr d), (''ask'', JArr k)]"
    and s: "list_all is_str a" "list_all is_str d" "list_all is_str k"
    and d: "distinct a" "distinct d" "distinct k"
    by (rule canonical_permissionsE)
  have si: "section_items ''permissions'' its =
              [(''allow'', JArr a), (''deny'', JArr d), (''ask'', JArr k)]"
    using section_items_distinct [OF assms(2,3)] by (simp add: v dict_of_def)
  have "perm_entries ''allow'' [JObj its] = a" "perm_entries ''deny'' [JObj its] = d"
    "perm_entries ''ask'' [JObj its] = k"
    by (simp_all add: perm_entries_def all_items_single si arrivals_def py_elems_def)
  with firsts_strings_fixed [OF s(1) d(1)] firsts_strings_fixed [OF s(2) d(2)]
    firsts_strings_fixed [OF s(3) d(3)]
  show ?thesis by (simp add: perms_spec_def v)
qed

lemma merge_spec_fixed:
  assumes "canonical_doc D"
  shows "merge_spec [D] = D"
proof -
  from assms obtain its where D: "D = JObj its" and dist: "distinct (map fst its)"
    and items: "list_all canonical_item its"
    by (cases D) (auto simp: canonical_doc_def)
  have keys: "firsts id {} (map fst its) = map fst its"
    using dist by (simp add: firsts_fixed)
  have "(fst kv, if fst kv = ''hooks'' then hooks_spec [JObj its]
                 else if fst kv = ''permissions'' then perms_spec [JObj its]
                 else last_value (fst kv) [JObj its]) = kv" if kv: "kv \<in> set its" for kv
  proof -
    obtain k v where kv': "kv = (k, v)" by (cases kv)
    from items kv have c: "canonical_item kv" by (simp add: list_all_iff)
    consider (h) "k = ''hooks''" | (p) "k = ''permissions''"
      | (o) "k \<noteq> ''hooks''" "k \<noteq> ''permissions''" by blast
    then show ?thesis
    proof cases
      case h
      with c kv' have "canonical_hooks v" by (simp add: canonical_item_def)
      from hooks_spec_fixed [OF this dist] kv kv' h show ?thesis by simp
    next
      case p
      with c kv' have "canonical_permissions v" by (simp add: canonical_item_def)
      from perms_spec_fixed [OF this dist] kv kv' p show ?thesis by simp
    next
      case o
      from kv kv' dist have "map_of its k = Some v" by simp
      then have "last_value k [JObj its] = v"
        by (simp add: last_value_def all_items_single map_of_rev_distinct [OF dist])
      with o kv' show ?thesis by simp
    qed
  qed
  then have "map (\<lambda>kv. (fst kv, if fst kv = ''hooks'' then hooks_spec [JObj its]
                 else if fst kv = ''permissions'' then perms_spec [JObj its]
                 else last_value (fst kv) [JObj its])) its = its"
    by (rule map_idI)
  then show ?thesis
    by (simp add: merge_spec_def D all_items_single keys comp_def)
qed

lemma canonical_group_valid: "canonical_group g \<Longrightarrow> valid_group g"
  by (erule canonical_groupE) (simp add: valid_group_def is_str_def)

lemma canonical_hooks_valid:
  assumes "canonical_hooks v"
  shows "valid_hooks v"
proof -
  have "valid_hook_list l" if "canonical_hook_list l" for l
    using that canonical_group_valid
    by (cases l) (auto simp: canonical_hook_list_def valid_hook_list_def list_all_iff)
  with assms show ?thesis
    by (cases v) (auto simp: canonical_hooks_def valid_hooks_def list_all_iff)
qed

lemma canonical_permissions_valid:
  assumes "canonical_permissions v"
  shows "valid_permissions v"
proof -
  from assms obtain a d k where
    v: "v = JObj [(''allow'', JArr a), (''deny'', JArr d), (''ask'', JArr k)]"
    and s: "list_all is_str a" "list_all is_str d" "list_all is_str k"
    by (rule canonical_permissionsE)
  show ?thesis
    using s
    by (simp add: v valid_permissions_def shaped_permissions_def valid_perm_list_def
          known_perm_type_def dict_of_def)
qed

lemma canonical_doc_valid: "canonical_doc d \<Longrightarrow> valid_doc d"
  using canonical_hooks_valid canonical_permissions_valid
  by (cases d)
     (auto simp: canonical_doc_def valid_doc_def canonical_item_def valid_item_def list_all_iff)

lemma merge_spec_items:
  "all_items docs = all_items docs' \<Longrightarrow> merge_spec docs = merge_spec docs'"
  by (simp add: merge_spec_def hooks_spec_def perms_spec_def last_value_def hook_types_def
        hook_entries_def perm_entries_def)

subsection \<open>Merging a fragment again\<close>

lemma gathered_hooks_append:
  "gathered_hooks m (xs @ ys) = gathered_hooks m xs @ gathered_hooks m ys"
  by (simp add: gathered_hooks_def)

lemma arrivals_append: "arrivals t (a @ b) = arrivals t a @ arrivals t b"
  by (simp add: arrivals_def)

lemma group_spec_reapply: "group_spec (group_spec (X @ B) @ B) = group_spec (X @ B)"
proof -
  let ?E = "X @ B"
  let ?G = "group_spec ?E"
  have dG: "distinct (map matcher_key ?G)" by (rule group_spec_distinct)
  have "matcher_key ` set ?G = matcher_key ` set ?E"
    using arg_cong [OF group_spec_keys [of ?E], of set]
    by (simp add: firsts_keys)
  then have "matcher_key ` set B \<subseteq> {} \<union> matcher_key ` set ?G" by auto
  then have "firsts matcher_key ({} \<union> matcher_key ` set ?G) B = []"
    by (rule firsts_absorbed)
  moreover have "firsts matcher_key {} ?G = ?G"
    using dG by (simp add: firsts_fixed)
  ultimately have F: "firsts matcher_key {} (?G @ B) = ?G"
    by (simp only: firsts_append append_Nil2)
  have "JObj [(''matcher'', matcher_of g),
              (''hooks'', JArr (firsts command_key {} (gathered_hooks (matcher_of g) (?G @ B))))] = g"
    if g: "g \<in> set ?G" for g
  proof -
    let ?m = "matcher_of g"
    have "filter (\<lambda>e. matcher_key e = matcher_key g) ?G = [g]"
      by (rule filter_unique_key [OF dG g])
    then have "gathered_hooks ?m ?G = hooks_of g"
      by (simp add: gathered_hooks_def matcher_key_def)
    also have "\<dots> = firsts command_key {} (gathered_hooks ?m X @ gathered_hooks ?m B)"
      using group_spec_hooks [OF g] by (simp add: gathered_hooks_append)
    finally have "firsts command_key {} (gathered_hooks ?m (?G @ B)) =
                  firsts command_key {} (gathered_hooks ?m ?E)"
      by (simp add: gathered_hooks_append firsts_reapply)
    with group_spec_member [OF g] show ?thesis by simp
  qed
  then have "map (\<lambda>g. JObj [(''matcher'', matcher_of g),
              (''hooks'', JArr (firsts command_key {} (gathered_hooks (matcher_of g) (?G @ B))))])
              ?G = ?G"
    by (rule map_idI)
  then show ?thesis
    unfolding group_spec_def [of "?G @ B"] F .
qed

lemma merge_spec_top: "merge_spec docs = JObj (map (\<lambda>k. (k, top_value docs k)) (top_keys docs))"
  by (simp add: merge_spec_def top_keys_def top_value_def)

lemma top_keys_distinct: "distinct (top_keys docs)"
  using firsts_distinct [of id "{}" "map fst (all_items docs)"] by (simp add: top_keys_def)

lemma all_items_append: "all_items (ds @ fs) = all_items ds @ all_items fs"
  by (simp add: all_items_def)

lemma all_items_merged:
  "all_items (merge_spec docs # fs) =
     map (\<lambda>k. (k, top_value docs k)) (top_keys docs) @ all_items fs"
  by (simp add: all_items_def merge_spec_top dict_of_def)

lemma section_items_tabulate:
  assumes "distinct ks"
  shows "section_items s (map (\<lambda>k. (k, f k)) ks) = (if s \<in> set ks then dict_of (f s) else [])"
proof (cases "s \<in> set ks")
  case True
  have "distinct (map fst (map (\<lambda>k. (k, f k)) ks))" using assms by (simp add: comp_def)
  moreover have "(s, f s) \<in> set (map (\<lambda>k. (k, f k)) ks)" using True by auto
  ultimately show ?thesis using True by (simp add: section_items_distinct)
next
  case False
  then have "s \<notin> fst ` set (map (\<lambda>k. (k, f k)) ks)" by auto
  with False show ?thesis by (simp add: section_items_def filter_key_absent)
qed

lemma section_items_merged:
  "section_items s (all_items (merge_spec docs # fs)) =
     (if s \<in> set (top_keys docs) then dict_of (top_value docs s) else []) @
     section_items s (all_items fs)"
  by (simp add: all_items_merged section_items_append
        section_items_tabulate [OF top_keys_distinct])

lemma top_keys_reapply: "top_keys (merge_spec (ds @ fs) # fs) = top_keys (ds @ fs)"
proof -
  have "top_keys (merge_spec (ds @ fs) # fs) =
        firsts id {} (firsts id {} (map fst (all_items ds) @ map fst (all_items fs)) @
                      map fst (all_items fs))"
    by (simp add: top_keys_def all_items_merged all_items_append comp_def)
  then show ?thesis
    by (simp add: firsts_reapply top_keys_def all_items_append)
qed

lemma hook_types_distinct: "distinct (hook_types docs)"
  using firsts_distinct [of id "{}"] by (simp add: hook_types_def)

lemma hooks_spec_reapply:
  assumes "''hooks'' \<in> set (top_keys (ds @ fs))"
  shows "hooks_spec (merge_spec (ds @ fs) # fs) = hooks_spec (ds @ fs)"
proof -
  let ?docs = "ds @ fs"
  let ?HX = "section_items ''hooks'' (all_items ds)"
  let ?HB = "section_items ''hooks'' (all_items fs)"
  let ?HM = "map (\<lambda>t. (t, JArr (group_spec (hook_entries t ?docs)))) (hook_types ?docs)"
  have H1: "section_items ''hooks'' (all_items ?docs) = ?HX @ ?HB"
    by (simp add: all_items_append section_items_append)
  have H2: "section_items ''hooks'' (all_items (merge_spec ?docs # fs)) = ?HM @ ?HB"
    using assms
    by (simp add: section_items_merged top_value_def hooks_spec_def dict_of_def)
  have T1: "hook_types ?docs = firsts id {} (map fst ?HX @ map fst ?HB)"
    by (simp add: hook_types_def H1)
  have types: "hook_types (merge_spec ?docs # fs) = hook_types ?docs"
    unfolding hook_types_def [of "merge_spec ?docs # fs"] H2
    by (simp add: comp_def T1 firsts_reapply)
  have "JArr (group_spec (hook_entries t (merge_spec ?docs # fs))) =
        JArr (group_spec (hook_entries t ?docs))" if t: "t \<in> set (hook_types ?docs)" for t
  proof -
    have "distinct (map fst ?HM)" using hook_types_distinct [of ?docs] by (simp add: comp_def)
    moreover have "(t, JArr (group_spec (hook_entries t ?docs))) \<in> set ?HM" using t by auto
    ultimately have "arrivals t ?HM = group_spec (hook_entries t ?docs)"
      by (simp add: arrivals_distinct py_elems_def)
    moreover have "hook_entries t ?docs = arrivals t ?HX @ arrivals t ?HB"
      by (simp add: hook_entries_def H1 arrivals_append)
    ultimately have "hook_entries t (merge_spec ?docs # fs) =
        group_spec (arrivals t ?HX @ arrivals t ?HB) @ arrivals t ?HB"
      unfolding hook_entries_def [of t "merge_spec ?docs # fs"] H2
      by (simp add: arrivals_append)
    then show ?thesis
      by (simp add: group_spec_reapply hook_entries_def H1 arrivals_append)
  qed
  then show ?thesis
    unfolding hooks_spec_def [of "merge_spec ?docs # fs"] types
    unfolding hooks_spec_def by simp
qed

lemma perms_spec_reapply:
  assumes "''permissions'' \<in> set (top_keys (ds @ fs))"
  shows "perms_spec (merge_spec (ds @ fs) # fs) = perms_spec (ds @ fs)"
proof -
  let ?docs = "ds @ fs"
  let ?PX = "section_items ''permissions'' (all_items ds)"
  let ?PB = "section_items ''permissions'' (all_items fs)"
  let ?PM = "map (\<lambda>t. (t, JArr (firsts py_key {} (perm_entries t ?docs))))
               [''allow'', ''deny'', ''ask'']"
  have P1: "section_items ''permissions'' (all_items ?docs) = ?PX @ ?PB"
    by (simp add: all_items_append section_items_append)
  have P2: "section_items ''permissions'' (all_items (merge_spec ?docs # fs)) = ?PM @ ?PB"
    using assms
    by (simp add: section_items_merged top_value_def perms_spec_def dict_of_def)
  have "firsts py_key {} (perm_entries t (merge_spec ?docs # fs)) =
        firsts py_key {} (perm_entries t ?docs)" if t: "t \<in> set [''allow'', ''deny'', ''ask'']"
    for t
  proof -
    have "arrivals t ?PM = firsts py_key {} (perm_entries t ?docs)"
      using t by (auto simp: arrivals_def py_elems_def)
    moreover have "perm_entries t ?docs = arrivals t ?PX @ arrivals t ?PB"
      by (simp add: perm_entries_def P1 arrivals_append)
    moreover have "perm_entries t (merge_spec ?docs # fs) = arrivals t ?PM @ arrivals t ?PB"
      unfolding perm_entries_def [of t "merge_spec ?docs # fs"] P2 by (rule arrivals_append)
    ultimately have "perm_entries t (merge_spec ?docs # fs) =
        firsts py_key {} (arrivals t ?PX @ arrivals t ?PB) @ arrivals t ?PB"
      by (simp only:)
    then show ?thesis
      by (simp add: firsts_reapply perm_entries_def P1 arrivals_append)
  qed
  then show ?thesis
    by (simp add: perms_spec_def)
qed

lemma last_value_reapply:
  assumes "k \<in> set (top_keys (ds @ fs))" and "k \<noteq> ''hooks''" and "k \<noteq> ''permissions''"
  shows "last_value k (merge_spec (ds @ fs) # fs) = last_value k (ds @ fs)"
proof -
  let ?docs = "ds @ fs"
  let ?M = "map (\<lambda>k. (k, top_value ?docs k)) (top_keys ?docs)"
  have "distinct (map fst ?M)" using top_keys_distinct [of ?docs] by (simp add: comp_def)
  then have "map_of (rev ?M) k = map_of ?M k" by (rule map_of_rev_distinct)
  also have "\<dots> = Some (last_value k ?docs)"
    using assms by (simp add: map_of_tabulate top_value_def)
  finally have M: "map_of (rev ?M) k = Some (last_value k ?docs)" .
  show ?thesis
  proof (cases "map_of (rev (all_items fs)) k")
    case None
    with M show ?thesis
      unfolding last_value_def [of k "merge_spec ?docs # fs"]
      by (simp add: all_items_merged map_add_def)
  next
    case (Some v)
    then show ?thesis
      by (simp add: last_value_def all_items_merged all_items_append map_add_def)
  qed
qed

lemma merge_spec_reapply: "merge_spec (merge_spec (ds @ fs) # fs) = merge_spec (ds @ fs)"
proof -
  let ?docs = "ds @ fs"
  have "(k, top_value (merge_spec ?docs # fs) k) = (k, top_value ?docs k)"
    if k: "k \<in> set (top_keys ?docs)" for k
  proof -
    consider (h) "k = ''hooks''" | (p) "k = ''permissions''"
      | (o) "k \<noteq> ''hooks''" "k \<noteq> ''permissions''" by blast
    then show ?thesis
    proof cases
      case h
      with k hooks_spec_reapply [of ds fs] show ?thesis by (simp add: top_value_def)
    next
      case p
      with k perms_spec_reapply [of ds fs] show ?thesis by (simp add: top_value_def)
    next
      case o
      with last_value_reapply [OF k] show ?thesis by (simp add: top_value_def)
    qed
  qed
  then have "map (\<lambda>k. (k, top_value (merge_spec ?docs # fs) k)) (top_keys ?docs) =
             map (\<lambda>k. (k, top_value ?docs k)) (top_keys ?docs)"
    by (rule map_cong [OF refl])
  then show ?thesis
    unfolding merge_spec_top [of "merge_spec ?docs # fs"] top_keys_reapply
    unfolding merge_spec_top by simp
qed

subsection \<open>The merged document is valid\<close>

lemma valid_docs_shaped_items:
  assumes "list_all valid_doc docs"
  shows "list_all shaped_item (all_items docs)"
proof -
  have "list_all shaped_doc docs" using assms valid_doc_shaped by (auto simp: list_all_iff)
  then show ?thesis using shaped_doc_items by blast
qed

lemma arrivals_all:
  assumes "list_all (\<lambda>kv. list_all Q (py_elems (snd kv))) sits"
  shows "list_all Q (arrivals t sits)"
  using assms by (induction sits) (auto simp: arrivals_def)

lemma hook_entries_valid:
  assumes "list_all valid_doc docs"
  shows "list_all valid_group (hook_entries t docs)"
proof -
  have "list_all (\<lambda>kv. list_all valid_group (py_elems (snd kv)))
          (section_items ''hooks'' (all_items docs))"
    using shaped_hooks_items [OF valid_docs_shaped_items [OF assms]] valid_hook_list_elems
    by (auto simp: list_all_iff)
  then show ?thesis unfolding hook_entries_def by (rule arrivals_all)
qed

lemma perm_entries_valid:
  assumes "list_all valid_doc docs"
  shows "list_all is_str (perm_entries t docs)"
proof -
  have "list_all (\<lambda>kv. list_all is_str (py_elems (snd kv)))
          (section_items ''permissions'' (all_items docs))"
    using shaped_perms_items [OF valid_docs_shaped_items [OF assms]] valid_perm_list_elems
    by (auto simp: list_all_iff)
  then show ?thesis unfolding perm_entries_def by (rule arrivals_all)
qed

lemma firsts_all: "list_all Q xs \<Longrightarrow> list_all Q (firsts f S xs)"
  using firsts_set_subset [of f S xs] by (auto simp: list_all_iff)

lemma group_spec_valid:
  assumes "list_all valid_group es"
  shows "list_all valid_group (group_spec es)"
proof -
  have "valid_group (JObj [(''matcher'', matcher_of g),
          (''hooks'', JArr (firsts command_key {} (gathered_hooks (matcher_of g) es)))])"
    if g: "g \<in> set es" for g
  proof -
    from assms g have vg: "valid_group g" by (simp add: list_all_iff)
    from valid_group_get(1) [OF vg] obtain m where
      "py_get g ''matcher'' (JStr '''') = Inr (JStr m)" by blast
    from py_get_Inr [OF this] have m: "matcher_of g = JStr m" by (simp add: matcher_of_def)
    have "list_all valid_entry (gathered_hooks (matcher_of g) es)"
      using assms valid_group_hooks by (auto simp: gathered_hooks_def list_all_iff)
    then have "list_all valid_entry
        (firsts command_key {} (gathered_hooks (matcher_of g) es))" by (rule firsts_all)
    with m show ?thesis by (simp add: valid_group_def is_str_def)
  qed
  then show ?thesis
    using firsts_set_subset [of matcher_key "{}" es]
    by (auto simp: group_spec_def list_all_iff)
qed

lemma merge_spec_valid:
  assumes "list_all valid_doc docs"
  shows "valid_doc (merge_spec docs)"
proof -
  have h: "valid_hooks (hooks_spec docs)"
    using hook_types_distinct [of docs] group_spec_valid [OF hook_entries_valid [OF assms]]
    by (simp add: hooks_spec_def valid_hooks_def valid_hook_list_def comp_def list_all_iff)
  have p: "valid_permissions (perms_spec docs)"
    using firsts_all [OF perm_entries_valid [OF assms], of py_key "{}"]
    by (simp add: perms_spec_def valid_permissions_def shaped_permissions_def
          valid_perm_list_def known_perm_type_def dict_of_def)
  from h p top_keys_distinct [of docs] show ?thesis
    by (simp add: merge_spec_top valid_doc_def valid_item_def top_value_def comp_def
          list_all_iff)
qed

subsection \<open>The merged document is canonical\<close>

lemma group_spec_canonical:
  assumes "list_all valid_group es"
  shows "list_all canonical_group (group_spec es)"
proof -
  have "canonical_group g" if g: "g \<in> set (group_spec es)" for g
  proof -
    let ?hs = "firsts command_key {} (gathered_hooks (matcher_of g) es)"
    have eq: "g = JObj [(''matcher'', matcher_of g), (''hooks'', JArr ?hs)]"
      by (rule group_spec_member [OF g])
    have hs: "hooks_of g = ?hs" by (rule group_spec_hooks [OF g])
    from group_spec_valid [OF assms] g have "valid_group g" by (simp add: list_all_iff)
    from valid_group_get(1) [OF this] obtain m where
      "py_get g ''matcher'' (JStr '''') = Inr (JStr m)" by blast
    from py_get_Inr [OF this] have "matcher_of g = JStr m" by (simp add: matcher_of_def)
    then have m: "is_str (matcher_of g)" by (simp add: is_str_def)
    have "list_all valid_entry (gathered_hooks (matcher_of g) es)"
      using assms valid_group_hooks by (auto simp: gathered_hooks_def list_all_iff)
    then have v: "list_all valid_entry ?hs" by (rule firsts_all)
    have d: "distinct (map command_key ?hs)" by (rule firsts_distinct)
    from eq m v d show ?thesis
      unfolding canonical_group_def hs by simp
  qed
  then show ?thesis by (simp add: list_all_iff)
qed

lemma hooks_spec_canonical:
  assumes "list_all valid_doc docs"
  shows "canonical_hooks (hooks_spec docs)"
  using hook_types_distinct [of docs]
    group_spec_canonical [OF hook_entries_valid [OF assms]] group_spec_distinct
  by (simp add: hooks_spec_def canonical_hooks_def canonical_hook_list_def comp_def
        list_all_iff)

lemma perms_spec_canonical:
  assumes "list_all valid_doc docs"
  shows "canonical_permissions (perms_spec docs)"
proof -
  have s: "list_all is_str (firsts py_key {} (perm_entries t docs))" for t
    by (rule firsts_all [OF perm_entries_valid [OF assms]])
  have d: "distinct (firsts py_key {} (perm_entries t docs))" for t
    using firsts_distinct [of py_key "{}" "perm_entries t docs"] by (simp add: distinct_map)
  have "perm_list (perms_spec docs) t = firsts py_key {} (perm_entries t docs)"
    if "t \<in> set [''allow'', ''deny'', ''ask'']" for t
    using that
    by (auto simp: perm_list_def perms_spec_def get_or_def dict_of_def py_elems_def)
  then have l: "perm_list (perms_spec docs) ''allow'' = firsts py_key {} (perm_entries ''allow'' docs)"
    "perm_list (perms_spec docs) ''deny'' = firsts py_key {} (perm_entries ''deny'' docs)"
    "perm_list (perms_spec docs) ''ask'' = firsts py_key {} (perm_entries ''ask'' docs)"
    by simp_all
  have e: "perms_spec docs =
     JObj [(''allow'', JArr (perm_list (perms_spec docs) ''allow'')),
           (''deny'', JArr (perm_list (perms_spec docs) ''deny'')),
           (''ask'', JArr (perm_list (perms_spec docs) ''ask''))]"
    unfolding l by (simp add: perms_spec_def)
  have "list_all (\<lambda>t. list_all is_str (perm_list (perms_spec docs) t) \<and>
                       distinct (perm_list (perms_spec docs) t)) [''allow'', ''deny'', ''ask'']"
    using s d by (simp add: l)
  with e show ?thesis unfolding canonical_permissions_def by (rule conjI)
qed

lemma merge_spec_canonical:
  assumes "list_all valid_doc docs"
  shows "canonical_doc (merge_spec docs)"
  using hooks_spec_canonical [OF assms] perms_spec_canonical [OF assms]
    top_keys_distinct [of docs]
  by (simp add: merge_spec_top canonical_doc_def canonical_item_def top_value_def comp_def
        list_all_iff)

text \<open>A canonical document is a deduplicated one.\<close>

lemma canonical_hooks_deduplicated:
  assumes "canonical_hooks v"
  shows "list_all (\<lambda>q. deduplicated_hook_list (snd q)) (dict_of v)"
proof -
  have "deduplicated_hook_list l" if "canonical_hook_list l" for l
    using that
    by (cases l)
       (auto simp: canonical_hook_list_def deduplicated_hook_list_def canonical_group_def
          py_elems_def list_all_iff)
  with assms show ?thesis
    by (cases v) (auto simp: canonical_hooks_def dict_of_def list_all_iff)
qed

lemma canonical_permissions_deduplicated:
  assumes "canonical_permissions v"
  shows "deduplicated_permissions v"
proof -
  from assms obtain a d k where
    v: "v = JObj [(''allow'', JArr a), (''deny'', JArr d), (''ask'', JArr k)]"
    and d: "distinct a" "distinct d" "distinct k"
    by (rule canonical_permissionsE)
  show ?thesis
    using d
    by (simp add: v deduplicated_permissions_def lookup_def perm_list_def get_or_def
          dict_of_def py_elems_def)
qed

subsection \<open>Where the deduplication fails\<close>

lemma iterable_iter: "iterable v \<Longrightarrow> py_iter v = Inr (py_elems v)"
  by (cases "py_iter v") (simp_all add: iterable_def py_elems_def)

lemma iter_iterable: "py_iter v = Inr ys \<Longrightarrow> iterable v"
  by (simp add: iterable_def)

lemma is_dict_obj: "is_dict v \<Longrightarrow> v = JObj (dict_of v)"
  by (cases v) (simp_all add: is_dict_def dict_of_def)

lemma is_dict_get: "is_dict v \<Longrightarrow> py_get v k d = Inr (get_or v k d)"
  by (cases v) (simp_all add: is_dict_def get_or_def dict_of_def)

lemma py_get_is_dict: "py_get v k d = Inr x \<Longrightarrow> is_dict v"
  by (cases v) (simp_all add: is_dict_def)

lemma dedupe_loop_accepts:
  "list_all ok_hook hs \<Longrightarrow> \<exists>r. dedupe_loop seen res hs = Inr r"
proof (induction hs arbitrary: seen res)
  case Nil
  show ?case by simp
next
  case (Cons h hs)
  from Cons.prems have "is_dict h" and k: "hashable (get_or h ''command'' (JStr ''''))"
    by (simp_all add: ok_hook_def)
  from is_dict_get [OF this(1)] k Cons show ?case by simp
qed

lemma dedupe_loop_Inr_ok:
  "dedupe_loop seen res hs = Inr r \<Longrightarrow> list_all ok_hook hs"
proof (induction hs arbitrary: seen res)
  case Nil
  show ?case by simp
next
  case (Cons h hs)
  from Cons.prems obtain key where key: "py_get h ''command'' (JStr '''') = Inr key"
    by (auto split: sum.splits)
  have k: "key = get_or h ''command'' (JStr '''')" by (rule py_get_Inr [OF key])
  from Cons.prems key have hk: "hashable key" by (auto split: if_splits)
  from Cons.prems key hk obtain seen' res' where "dedupe_loop seen' res' hs = Inr r"
    by (auto split: if_splits)
  from Cons.IH [OF this] py_get_is_dict [OF key] hk k show ?case
    by (simp add: ok_hook_def)
qed

lemma fromkeys_accepts: "list_all hashable xs \<Longrightarrow> \<exists>r. fromkeys ks xs = Inr r"
  by (induction xs arbitrary: ks) simp_all

lemma fromkeys_Inr_ok: "fromkeys ks xs = Inr r \<Longrightarrow> list_all hashable xs"
proof (induction xs arbitrary: ks)
  case Nil
  show ?case by simp
next
  case (Cons x xs)
  from Cons.prems have hx: "hashable x" by (auto split: if_splits)
  with Cons.prems obtain ks' where "fromkeys ks' xs = Inr r" by (auto split: if_splits)
  from Cons.IH [OF this] hx show ?case by simp
qed

lemma rebuild_accepts:
  "list_all (\<lambda>p. list_all ok_hook (snd p)) bm \<Longrightarrow> \<exists>gs. rebuild bm = Inr gs"
proof (induction bm)
  case Nil
  show ?case by simp
next
  case (Cons p bm)
  obtain m hs where p: "p = (m, hs)" by (cases p)
  with Cons.prems obtain ds where "dedupe_hooks hs = Inr ds"
    using dedupe_loop_accepts [of hs "{}" "[]"] by (auto simp: dedupe_hooks_def)
  with Cons p show ?case by auto
qed

lemma rebuild_Inr_ok:
  "rebuild bm = Inr gs \<Longrightarrow> list_all (\<lambda>p. list_all ok_hook (snd p)) bm"
proof (induction bm arbitrary: gs)
  case Nil
  show ?case by simp
next
  case (Cons p bm)
  obtain m hs where p: "p = (m, hs)" by (cases p)
  from Cons.prems p obtain ds gs' where
    ds: "dedupe_hooks hs = Inr ds" and gs': "rebuild bm = Inr gs'"
    by (auto split: sum.splits)
  from dedupe_loop_Inr_ok [of "{}" "[]" hs ds] ds have "list_all ok_hook hs"
    by (simp add: dedupe_hooks_def)
  with Cons.IH [OF gs'] p show ?case by simp
qed

lemma group_by_matcher_accepts:
  "list_all ok_group_shape es \<Longrightarrow> \<exists>bm'. group_by_matcher bm es = Inr bm'"
proof (induction es arbitrary: bm)
  case Nil
  show ?case by simp
next
  case (Cons e es)
  from Cons.prems have d: "is_dict e" and m: "hashable (matcher_of e)"
    and i: "iterable (get_or e ''hooks'' (JArr []))"
    by (simp_all add: ok_group_shape_def)
  from is_dict_get [OF d] m iterable_iter [OF i] Cons show ?case
    by (simp add: matcher_of_def)
qed

lemma group_by_matcher_Inr_ok:
  "group_by_matcher bm es = Inr bm' \<Longrightarrow> list_all ok_group_shape es"
proof (induction es arbitrary: bm)
  case Nil
  show ?case by simp
next
  case (Cons e es)
  from Cons.prems obtain m hv ys bm1 where
    m: "py_get e ''matcher'' (JStr '''') = Inr m" and hm: "hashable m" and
    hv: "py_get e ''hooks'' (JArr []) = Inr hv" and
    ys: "py_iter hv = Inr ys" and
    rest: "group_by_matcher bm1 es = Inr bm'"
    by (auto split: sum.splits if_splits)
  have "ok_group_shape e"
    using py_get_is_dict [OF m] py_get_Inr [OF m] hm py_get_Inr [OF hv] iter_iterable [OF ys]
    by (simp add: ok_group_shape_def matcher_of_def)
  with Cons.IH [OF rest] show ?case by simp
qed

lemma gathered_hooks_cover:
  assumes "e \<in> set es"
  shows "\<exists>g\<in>set (firsts matcher_key {} es).
           set (hooks_of e) \<subseteq> set (gathered_hooks (matcher_of g) es)"
proof -
  have "matcher_key e \<in> matcher_key ` set (firsts matcher_key {} es)"
    using assms by (simp add: firsts_keys)
  then obtain g where g: "g \<in> set (firsts matcher_key {} es)"
    and k: "matcher_key e = matcher_key g" by auto
  from assms k have "set (hooks_of e) \<subseteq> set (gathered_hooks (matcher_of g) es)"
    by (auto simp: gathered_hooks_def matcher_key_def)
  with g show ?thesis by blast
qed

lemma regroup_accepts:
  assumes "list_all ok_group es"
  shows "\<exists>bm gs. group_by_matcher [] es = Inr bm \<and> rebuild bm = Inr gs"
proof -
  from assms have "list_all ok_group_shape es" by (simp add: list_all_iff ok_group_def)
  from group_by_matcher_accepts [OF this] obtain bm where
    bm: "group_by_matcher [] es = Inr bm" by blast
  have "list_all ok_hook (gathered_hooks m es)" for m
    using assms by (auto simp: gathered_hooks_def list_all_iff ok_group_def)
  then have "list_all (\<lambda>p. list_all ok_hook (snd p)) bm"
    unfolding group_by_matcher_closed [OF bm] by (simp add: list_all_iff)
  from rebuild_accepts [OF this] bm show ?thesis by blast
qed

lemma regroup_Inr_ok:
  assumes "group_by_matcher [] es = Inr bm" and "rebuild bm = Inr gs"
  shows "list_all ok_group es"
proof -
  have shape: "list_all ok_group_shape es" by (rule group_by_matcher_Inr_ok [OF assms(1)])
  have all: "list_all ok_hook (gathered_hooks (matcher_of g) es)"
    if "g \<in> set (firsts matcher_key {} es)" for g
    using rebuild_Inr_ok [OF assms(2)] that
    unfolding group_by_matcher_closed [OF assms(1)] by (simp add: list_all_iff)
  have "list_all ok_hook (hooks_of e)" if "e \<in> set es" for e
    using gathered_hooks_cover [OF that] all by (auto simp: list_all_iff)
  with shape show ?thesis by (simp add: list_all_iff ok_group_def)
qed

lemma dedupe_hook_types_accepts:
  "list_all (\<lambda>p. list_all ok_group (snd p)) h \<Longrightarrow> \<exists>h'. dedupe_hook_types h = Inr h'"
proof (induction h)
  case Nil
  show ?case by simp
next
  case (Cons p h)
  obtain t es where p: "p = (t, es)" by (cases p)
  with Cons.prems regroup_accepts [of es] obtain bm gs where
    "group_by_matcher [] es = Inr bm" "rebuild bm = Inr gs" by auto
  with Cons p show ?case by auto
qed

lemma dedupe_hook_types_Inr_ok:
  "dedupe_hook_types h = Inr h' \<Longrightarrow> list_all (\<lambda>p. list_all ok_group (snd p)) h"
proof (induction h arbitrary: h')
  case Nil
  show ?case by simp
next
  case (Cons p h)
  obtain t es where p: "p = (t, es)" by (cases p)
  from Cons.prems p obtain bm gs r where
    bm: "group_by_matcher [] es = Inr bm" and gs: "rebuild bm = Inr gs" and
    r: "dedupe_hook_types h = Inr r"
    by (auto split: sum.splits)
  from Cons.IH [OF r] regroup_Inr_ok [OF bm gs] p show ?case by simp
qed

lemma dedupe_perm_types_accepts:
  "list_all (\<lambda>p. list_all hashable (snd p)) p \<Longrightarrow> \<exists>p'. dedupe_perm_types p = Inr p'"
proof (induction p)
  case Nil
  show ?case by simp
next
  case (Cons q p)
  obtain t xs where q: "q = (t, xs)" by (cases q)
  with Cons.prems fromkeys_accepts [of xs "[]"] obtain ps where "fromkeys [] xs = Inr ps"
    by auto
  with Cons q show ?case by auto
qed

lemma dedupe_perm_types_Inr_ok:
  "dedupe_perm_types p = Inr p' \<Longrightarrow> list_all (\<lambda>p. list_all hashable (snd p)) p"
proof (induction p arbitrary: p')
  case Nil
  show ?case by simp
next
  case (Cons q p)
  obtain t xs where q: "q = (t, xs)" by (cases q)
  from Cons.prems q obtain ps r where
    ps: "fromkeys [] xs = Inr ps" and r: "dedupe_perm_types p = Inr r"
    by (auto split: sum.splits)
  from Cons.IH [OF r] fromkeys_Inr_ok [OF ps] q show ?case by simp
qed

subsection \<open>Where the fold fails\<close>

lemma extend_at_Inr_iterable: "extend_at d k v = Inr d' \<Longrightarrow> iterable v"
  by (auto simp: extend_at_def iterable_def split: option.splits sum.splits)

lemma merge_hook_types_accepts:
  "list_all (\<lambda>kv. iterable (snd kv)) its \<Longrightarrow> \<exists>h'. merge_hook_types h its = Inr h'"
proof (induction its arbitrary: h)
  case Nil
  show ?case by simp
next
  case (Cons kv its)
  obtain t v where kv: "kv = (t, v)" by (cases kv)
  with Cons.prems have ys: "py_iter v = Inr (py_elems v)" by (simp add: iterable_iter)
  have "has_key t (if has_key t h then h else AList.update t [] h)"
    by (simp add: has_key_update)
  from extend_at_ok [OF this ys] obtain h1 where
    "extend_at (if has_key t h then h else AList.update t [] h) t v = Inr h1" by blast
  with Cons kv show ?case by simp
qed

lemma merge_hook_types_Inr_ok:
  "merge_hook_types h its = Inr h' \<Longrightarrow> list_all (\<lambda>kv. iterable (snd kv)) its"
proof (induction its arbitrary: h)
  case Nil
  show ?case by simp
next
  case (Cons kv its)
  obtain t v where kv: "kv = (t, v)" by (cases kv)
  from Cons.prems kv obtain h1 where
    h1: "extend_at (if has_key t h then h else AList.update t [] h) t v = Inr h1" and
    rest: "merge_hook_types h1 its = Inr h'"
    by (auto split: sum.splits)
  from Cons.IH [OF rest] extend_at_Inr_iterable [OF h1] kv show ?case by simp
qed

lemma merge_perm_types_foldable:
  "list_all (\<lambda>kv. iterable (snd kv)) its \<Longrightarrow>
   (case find (\<lambda>kv. \<not> has_key (fst kv) p) its of
      None \<Rightarrow> \<exists>p'. merge_perm_types p its = Inr p'
    | Some q \<Rightarrow> merge_perm_types p its = Inl (KeyError (fst q)))"
proof (induction its arbitrary: p)
  case Nil
  show ?case by simp
next
  case (Cons kv its)
  obtain t v where kv: "kv = (t, v)" by (cases kv)
  with Cons.prems have ys: "py_iter v = Inr (py_elems v)" by (simp add: iterable_iter)
  show ?case
  proof (cases "has_key t p")
    case True
    from extend_at_ok [OF True ys] obtain xs where
      p1: "extend_at p t v = Inr (AList.update t (xs @ py_elems v) p)" by blast
    have same: "has_key k (AList.update t (xs @ py_elems v) p) = has_key k p" for k
      using True by (auto simp: has_key_update)
    from Cons.IH [of "AList.update t (xs @ py_elems v) p"] Cons.prems True p1 kv
    show ?thesis by (auto simp: same split: option.splits)
  next
    case False
    then have "map_of p t = None" by (simp add: has_key_def map_of_eq_None_iff)
    with False kv show ?thesis by (auto simp: extend_at_def split: option.splits)
  qed
qed

lemma merge_perm_types_Inr_ok:
  "merge_perm_types p its = Inr p' \<Longrightarrow> list_all (\<lambda>kv. iterable (snd kv)) its"
proof (induction its arbitrary: p)
  case Nil
  show ?case by simp
next
  case (Cons kv its)
  obtain t v where kv: "kv = (t, v)" by (cases kv)
  from Cons.prems kv obtain p1 where
    p1: "extend_at p t v = Inr p1" and rest: "merge_perm_types p1 its = Inr p'"
    by (auto split: sum.splits)
  from Cons.IH [OF rest] extend_at_Inr_iterable [OF p1] kv show ?case by simp
qed

lemma merge_item_foldable:
  assumes "foldable_item kv"
    and "\<And>t. has_key t (current_permissions st) = known_perm_type t"
  shows "case first_unknown [kv] of
           None \<Rightarrow> \<exists>st'. merge_item st kv = Inr st'
         | Some q \<Rightarrow> merge_item st kv = Inl (KeyError (fst q))"
proof -
  obtain k v where kv: "kv = (k, v)" by (cases kv)
  consider (h) "k = ''hooks''" | (p) "k = ''permissions''"
    | (o) "k \<noteq> ''hooks''" "k \<noteq> ''permissions''" by blast
  then show ?thesis
  proof cases
    case h
    with assms(1) kv have "is_dict v" and its: "list_all (\<lambda>q. iterable (snd q)) (dict_of v)"
      by (simp_all add: foldable_item_def known_key_def)
    from is_dict_obj [OF this(1)] have v: "v = JObj (dict_of v)" .
    have none: "first_unknown [kv] = None"
      using h kv by (simp add: first_unknown_def section_items_single)
    let ?st1 = "if has_key ''hooks'' (result st) then st
                else st\<lparr>result := AList.update ''hooks'' JNull (result st),
                        result_hooks := []\<rparr>"
    from merge_hook_types_accepts [OF its] obtain h' where
      "merge_hook_types (result_hooks ?st1) (dict_of v) = Inr h'" by blast
    then have "merge_item st (''hooks'', JObj (dict_of v)) = Inr (?st1\<lparr>result_hooks := h'\<rparr>)"
      by (simp add: Let_def)
    with none kv h v show ?thesis by simp
  next
    case p
    with assms(1) kv have "is_dict v" and its: "list_all (\<lambda>q. iterable (snd q)) (dict_of v)"
      by (simp_all add: foldable_item_def known_key_def)
    from is_dict_obj [OF this(1)] have v: "v = JObj (dict_of v)" .
    let ?its = "dict_of v"
    let ?st1 = "if has_key ''permissions'' (result st) then st
                else st\<lparr>result := AList.update ''permissions'' JNull (result st),
                        result_permissions := [(''allow'', []), (''deny'', []), (''ask'', [])]\<rparr>"
    have cur: "result_permissions ?st1 = current_permissions st"
      by (simp add: current_permissions_def)
    have fu: "first_unknown [kv] =
                find (\<lambda>q. \<not> has_key (fst q) (current_permissions st)) ?its"
      using p kv by (simp add: first_unknown_def section_items_single assms(2))
    have "merge_item st (''permissions'', JObj ?its) =
        (case merge_perm_types (current_permissions st) ?its of
           Inl e \<Rightarrow> Inl e
         | Inr p' \<Rightarrow> Inr (?st1\<lparr>result_permissions := p'\<rparr>))"
      using cur by (simp add: Let_def)
    with kv p v have item: "merge_item st kv =
        (case merge_perm_types (current_permissions st) ?its of
           Inl e \<Rightarrow> Inl e
         | Inr p' \<Rightarrow> Inr (?st1\<lparr>result_permissions := p'\<rparr>))" by simp
    show ?thesis
    proof (cases "find (\<lambda>q. \<not> has_key (fst q) (current_permissions st)) ?its")
      case None
      with merge_perm_types_foldable [OF its, of "current_permissions st"]
      obtain p' where "merge_perm_types (current_permissions st) ?its = Inr p'" by auto
      with None fu item show ?thesis by simp
    next
      case (Some q)
      with merge_perm_types_foldable [OF its, of "current_permissions st"]
      have "merge_perm_types (current_permissions st) ?its = Inl (KeyError (fst q))" by simp
      with Some fu item show ?thesis by simp
    qed
  next
    case o
    then show ?thesis
      using kv by (simp add: first_unknown_def section_items_single)
  qed
qed

lemma merge_item_Inr_foldable:
  assumes "merge_item st kv = Inr st'"
  shows "foldable_item kv"
proof -
  obtain k v where kv: "kv = (k, v)" by (cases kv)
  consider (h) "k = ''hooks''" | (p) "k = ''permissions''"
    | (o) "k \<noteq> ''hooks''" "k \<noteq> ''permissions''" by blast
  then show ?thesis
  proof cases
    case h
    let ?st1 = "if has_key ''hooks'' (result st) then st
                else st\<lparr>result := AList.update ''hooks'' JNull (result st),
                        result_hooks := []\<rparr>"
    from assms kv h obtain its where its: "py_items v = Inr its"
      by (auto simp: Let_def split: sum.splits)
    with assms kv h obtain h' where
      m: "merge_hook_types (result_hooks ?st1) its = Inr h'"
      by (auto simp: Let_def split: sum.splits)
    from py_items_Inr [OF its] merge_hook_types_Inr_ok [OF m] kv h show ?thesis
      by (simp add: foldable_item_def is_dict_def dict_of_def)
  next
    case p
    let ?st1 = "if has_key ''permissions'' (result st) then st
                else st\<lparr>result := AList.update ''permissions'' JNull (result st),
                        result_permissions := [(''allow'', []), (''deny'', []), (''ask'', [])]\<rparr>"
    from assms kv p obtain its where its: "py_items v = Inr its"
      by (auto simp: Let_def split: sum.splits)
    with assms kv p obtain p' where
      m: "merge_perm_types (result_permissions ?st1) its = Inr p'"
      by (auto simp: Let_def split: sum.splits)
    from py_items_Inr [OF its] merge_perm_types_Inr_ok [OF m] kv p show ?thesis
      by (simp add: foldable_item_def is_dict_def dict_of_def)
  next
    case o
    with kv show ?thesis by (simp add: foldable_item_def known_key_def)
  qed
qed

lemma merge_items_Inr_foldable:
  "merge_items st its = Inr st' \<Longrightarrow> list_all foldable_item its"
proof (induction its arbitrary: st)
  case Nil
  show ?case by simp
next
  case (Cons kv its)
  from Cons.prems obtain st1 where
    st1: "merge_item st kv = Inr st1" and rest: "merge_items st1 its = Inr st'"
    by (auto split: sum.splits)
  from Cons.IH [OF rest] merge_item_Inr_foldable [OF st1] show ?case by simp
qed

lemma merge_items_foldable:
  "list_all foldable_item its \<Longrightarrow>
   distinct (map fst (current_hooks st)) \<Longrightarrow>
   distinct (map fst (current_permissions st)) \<Longrightarrow>
   (\<And>t. has_key t (current_permissions st) = known_perm_type t) \<Longrightarrow>
   (case first_unknown its of
      None \<Rightarrow> \<exists>st'. merge_items st its = Inr st'
    | Some q \<Rightarrow> merge_items st its = Inl (KeyError (fst q)))"
proof (induction its arbitrary: st)
  case Nil
  show ?case by (simp add: first_unknown_def section_items_def)
next
  case (Cons kv its)
  from Cons.prems(1) have kv: "foldable_item kv" and its: "list_all foldable_item its"
    by simp_all
  note item = merge_item_foldable [OF kv Cons.prems(4)]
  show ?case
  proof (cases "first_unknown [kv]")
    case (Some q)
    then have "first_unknown (kv # its) = Some q"
      using first_unknown_Cons [of kv its] by simp
    with item Some show ?thesis by simp
  next
    case None
    then have fu: "first_unknown (kv # its) = first_unknown its"
      using first_unknown_Cons [of kv its] by simp
    from None item obtain st1 where st1: "merge_item st kv = Inr st1" by auto
    note step = merge_item_Inr [OF st1 Cons.prems(2) Cons.prems(3)]
    have dh: "distinct (map fst (current_hooks st1))"
      unfolding step(2) by (rule foldl_acc_step_distinct_id [OF Cons.prems(2)])
    have dp: "distinct (map fst (current_permissions st1))"
      unfolding step(3) by (rule foldl_acc_step_distinct_id [OF Cons.prems(3)])
    have keys: "fst ` set (current_permissions st1) = fst ` set (current_permissions st)"
      unfolding step(3)
      using foldl_acc_step_keys [of "\<lambda>k. k" "current_permissions st"
              "map elems_item (section_items ''permissions'' [kv])"] step(4)
      by (auto simp: elems_item_def image_image)
    have known: "has_key t (current_permissions st1) = known_perm_type t" for t
      using Cons.prems(4) [of t] keys by (simp add: has_key_def)
    from Cons.IH [OF its dh dp known] st1 show ?thesis
      unfolding fu by (auto split: option.splits)
  qed
qed

subsection \<open>The merge returns exactly on mergeable documents\<close>

lemma map_extend_all_iff:
  "list_all (\<lambda>p. list_all Q (snd p)) (map (\<lambda>p. if c p then (fst p, snd p @ ys) else p) ps) \<longleftrightarrow>
   list_all (\<lambda>p. list_all Q (snd p)) ps \<and> ((\<exists>p\<in>set ps. c p) \<longrightarrow> list_all Q ys)"
  by (induction ps) auto

lemma acc_step_all_iff:
  "list_all (\<lambda>p. list_all Q (snd p)) (acc_step key bm x) \<longleftrightarrow>
   list_all (\<lambda>p. list_all Q (snd p)) bm \<and> list_all Q (snd x)"
proof (cases "key (fst x) \<in> (\<lambda>p. key (fst p)) ` set bm")
  case True
  then obtain p where "p \<in> set bm" "key (fst x) = key (fst p)" by (rule imageE)
  then have ex: "\<exists>p\<in>set bm. key (fst p) = key (fst x)" by (intro bexI [of _ p]) simp_all
  from True have "acc_step key bm x =
      map (\<lambda>p. if key (fst p) = key (fst x) then (fst p, snd p @ snd x) else p) bm"
    by (simp add: acc_step_def)
  then show ?thesis
    using map_extend_all_iff [of Q "\<lambda>p. key (fst p) = key (fst x)" "snd x" bm] ex by simp
next
  case False
  then show ?thesis by (auto simp: acc_step_def)
qed

lemma foldl_acc_step_all_iff:
  "list_all (\<lambda>p. list_all Q (snd p)) (foldl (acc_step key) bm xs) \<longleftrightarrow>
   list_all (\<lambda>p. list_all Q (snd p)) bm \<and> list_all (\<lambda>p. list_all Q (snd p)) xs"
  by (induction xs arbitrary: bm) (auto simp: acc_step_all_iff)

lemma elems_items_all_iff:
  "list_all (\<lambda>p. list_all Q (snd p)) (map elems_item si) \<longleftrightarrow>
   list_all (\<lambda>q. list_all Q (py_elems (snd q))) si"
  by (simp add: list_all_iff elems_item_def)

lemma set_section_items:
  "set (section_items k its) = (\<Union>kv\<in>{kv \<in> set its. fst kv = k}. set (dict_of (snd kv)))"
  by (auto simp: section_items_def)

lemma section_items_empty: "k \<notin> fst ` set its \<Longrightarrow> section_items k its = []"
  by (simp add: section_items_def filter_key_absent)

text \<open>
  The state of the fold from the empty state, and what makes the deduplication of that
  state return.
\<close>

lemma fold_from_empty:
  assumes "merge_items empty_state its = Inr st"
  shows "fst ` set (result st) = fst ` set its"
    and "current_hooks st =
           foldl (acc_step (\<lambda>k. k)) [] (map elems_item (section_items ''hooks'' its))"
    and "current_permissions st =
           foldl (acc_step (\<lambda>k. k)) [(''allow'', []), (''deny'', []), (''ask'', [])]
             (map elems_item (section_items ''permissions'' its))"
proof -
  have e: "result empty_state = []" "current_hooks empty_state = []"
    "current_permissions empty_state = [(''allow'', []), (''deny'', []), (''ask'', [])]"
    by (simp_all add: empty_state_def current_hooks_def current_permissions_def has_key_def)
  from merge_items_Inr [OF assms] e
  have R: "result st = foldl top_step [] its"
    and H: "current_hooks st =
           foldl (acc_step (\<lambda>k. k)) [] (map elems_item (section_items ''hooks'' its))"
    and P: "current_permissions st =
           foldl (acc_step (\<lambda>k. k)) [(''allow'', []), (''deny'', []), (''ask'', [])]
             (map elems_item (section_items ''permissions'' its))"
    by simp_all
  have "set (map fst (result st)) = set (map fst its)"
    unfolding R top_keys by (simp add: firsts_id_set)
  then show "fst ` set (result st) = fst ` set its" by simp
  show "current_hooks st =
           foldl (acc_step (\<lambda>k. k)) [] (map elems_item (section_items ''hooks'' its))"
    by (rule H)
  show "current_permissions st =
           foldl (acc_step (\<lambda>k. k)) [(''allow'', []), (''deny'', []), (''ask'', [])]
             (map elems_item (section_items ''permissions'' its))"
    by (rule P)
qed

lemma dedupe_state_returns_iff:
  assumes "merge_items empty_state its = Inr st"
  shows "(\<exists>st2. dedupe_state st = Inr st2) \<longleftrightarrow>
         list_all (\<lambda>q. list_all ok_group (py_elems (snd q))) (section_items ''hooks'' its) \<and>
         list_all (\<lambda>q. list_all hashable (py_elems (snd q))) (section_items ''permissions'' its)"
proof -
  note F = fold_from_empty [OF assms]
  let ?si = "section_items ''hooks'' its" and ?pi = "section_items ''permissions'' its"
  have hooks: "(\<exists>h. (if has_key ''hooks'' (result st) then dedupe_hook_types (result_hooks st)
              else Inr (result_hooks st)) = Inr h) \<longleftrightarrow>
         list_all (\<lambda>q. list_all ok_group (py_elems (snd q))) ?si"
  proof (cases "has_key ''hooks'' (result st)")
    case True
    then have cur: "result_hooks st = current_hooks st" by (simp add: current_hooks_def)
    have "(\<exists>h. dedupe_hook_types (result_hooks st) = Inr h) \<longleftrightarrow>
          list_all (\<lambda>p. list_all ok_group (snd p)) (result_hooks st)"
      using dedupe_hook_types_accepts dedupe_hook_types_Inr_ok by blast
    with True show ?thesis
      unfolding cur F(2) by (simp add: foldl_acc_step_all_iff elems_items_all_iff)
  next
    case False
    then have "''hooks'' \<notin> fst ` set its" using F(1) by (simp add: has_key_def)
    from section_items_empty [OF this] False show ?thesis by simp
  qed
  have perms: "(\<exists>p. (if has_key ''permissions'' (result st)
              then dedupe_perm_types (result_permissions st)
              else Inr (result_permissions st)) = Inr p) \<longleftrightarrow>
         list_all (\<lambda>q. list_all hashable (py_elems (snd q))) ?pi"
  proof (cases "has_key ''permissions'' (result st)")
    case True
    then have cur: "result_permissions st = current_permissions st"
      by (simp add: current_permissions_def)
    have "(\<exists>p. dedupe_perm_types (result_permissions st) = Inr p) \<longleftrightarrow>
          list_all (\<lambda>p. list_all hashable (snd p)) (result_permissions st)"
      using dedupe_perm_types_accepts dedupe_perm_types_Inr_ok by blast
    with True show ?thesis
      unfolding cur F(3) by (simp add: foldl_acc_step_all_iff elems_items_all_iff)
  next
    case False
    then have "''permissions'' \<notin> fst ` set its" using F(1) by (simp add: has_key_def)
    from section_items_empty [OF this] False show ?thesis by simp
  qed
  have "(\<exists>st2. dedupe_state st = Inr st2) \<longleftrightarrow>
        (\<exists>h. (if has_key ''hooks'' (result st) then dedupe_hook_types (result_hooks st)
              else Inr (result_hooks st)) = Inr h) \<and>
        (\<exists>p. (if has_key ''permissions'' (result st)
              then dedupe_perm_types (result_permissions st)
              else Inr (result_permissions st)) = Inr p)"
    by (auto simp: dedupe_state_def split: sum.splits)
  with hooks perms show ?thesis by simp
qed

lemma all_items_dicts:
  "\<forall>d\<in>set docs. is_dict d \<Longrightarrow> \<forall>d\<in>set docs. \<exists>kvs. d = JObj kvs"
  using is_dict_obj by blast

lemma set_all_items: "set (all_items docs) = (\<Union>d\<in>set docs. set (dict_of d))"
  by (simp add: all_items_def)

lemma mergeable_item_foldable: "mergeable_item kv \<Longrightarrow> foldable_item kv"
  by (auto simp: mergeable_item_def foldable_item_def known_key_def ok_hook_list_def
        ok_perm_list_def list_all_iff)

lemma empty_state_sections:
  "result empty_state = []" "current_hooks empty_state = []"
  "current_permissions empty_state = [(''allow'', []), (''deny'', []), (''ask'', [])]"
  by (simp_all add: empty_state_def current_hooks_def current_permissions_def has_key_def)

lemma empty_state_known: "has_key t (current_permissions empty_state) = known_perm_type t"
  by (auto simp: empty_state_sections has_key_def known_perm_type_def)

text \<open>
  The fold over foldable documents: it stops with a \<^verbatim>\<open>KeyError\<close> at the first unknown
  permission type, and returns when there is none.
\<close>

lemma merge_dicts_foldable:
  assumes "list_all foldable_doc docs"
  shows "case first_unknown (all_items docs) of
           None \<Rightarrow> \<exists>st. merge_dicts empty_state docs = Inr st
         | Some q \<Rightarrow> merge_dicts empty_state docs = Inl (KeyError (fst q))"
proof -
  from assms have dicts: "\<forall>d\<in>set docs. is_dict d"
    and its: "list_all foldable_item (all_items docs)"
    by (auto simp: set_all_items foldable_doc_def list_all_iff)
  have md: "merge_dicts empty_state docs = merge_items empty_state (all_items docs)"
    by (rule merge_dicts_items [OF all_items_dicts [OF dicts]])
  show ?thesis
    unfolding md
    by (rule merge_items_foldable [OF its _ _ empty_state_known])
       (simp_all add: empty_state_sections)
qed

lemma merge_settings_foldable_unknown:
  assumes "list_all foldable_doc docs" and "first_unknown (all_items docs) = Some q"
  shows "merge_settings docs = Inl (KeyError (fst q))"
  using merge_dicts_foldable [OF assms(1)] assms(2) by (simp add: merge_settings_def)

lemma mergeable_sections:
  assumes "list_all mergeable_item its"
  shows "list_all (\<lambda>q. ok_hook_list (snd q)) (section_items ''hooks'' its)"
    and "list_all (\<lambda>q. known_perm_type (fst q) \<and> ok_perm_list (snd q))
           (section_items ''permissions'' its)"
proof -
  show "list_all (\<lambda>q. ok_hook_list (snd q)) (section_items ''hooks'' its)"
  proof (rule section_items_all)
    fix kv assume "kv \<in> set its" "fst kv = ''hooks''"
    with assms show "list_all (\<lambda>q. ok_hook_list (snd q)) (dict_of (snd kv))"
      by (auto simp: list_all_iff mergeable_item_def)
  qed
  show "list_all (\<lambda>q. known_perm_type (fst q) \<and> ok_perm_list (snd q))
          (section_items ''permissions'' its)"
  proof (rule section_items_all)
    fix kv assume "kv \<in> set its" "fst kv = ''permissions''"
    with assms
    show "list_all (\<lambda>q. known_perm_type (fst q) \<and> ok_perm_list (snd q)) (dict_of (snd kv))"
      by (auto simp: list_all_iff mergeable_item_def)
  qed
qed

lemma merge_settings_mergeable:
  assumes "list_all mergeable_doc docs"
  shows "\<exists>r. merge_settings docs = Inr r"
proof -
  let ?its = "all_items docs"
  from assms have its: "list_all mergeable_item ?its"
    by (auto simp: set_all_items mergeable_doc_def list_all_iff)
  from assms have fd: "list_all foldable_doc docs"
    by (auto simp: mergeable_doc_def foldable_doc_def list_all_iff mergeable_item_foldable)
  note S = mergeable_sections [OF its]
  from S(2) have "first_unknown ?its = None"
    by (auto simp: first_unknown_def find_None_iff list_all_iff)
  with merge_dicts_foldable [OF fd] obtain st where
    st: "merge_dicts empty_state docs = Inr st" by auto
  from merge_dicts_Inr [OF st] have items: "merge_items empty_state ?its = Inr st" by simp
  from S have "list_all (\<lambda>q. list_all ok_group (py_elems (snd q))) (section_items ''hooks'' ?its)"
    and "list_all (\<lambda>q. list_all hashable (py_elems (snd q))) (section_items ''permissions'' ?its)"
    by (auto simp: list_all_iff ok_hook_list_def ok_perm_list_def)
  with dedupe_state_returns_iff [OF items] obtain st2 where "dedupe_state st = Inr st2"
    by blast
  with st show ?thesis by (simp add: merge_settings_def)
qed

lemma merge_settings_Inr_mergeable:
  assumes "merge_settings docs = Inr r"
  shows "list_all mergeable_doc docs"
proof -
  let ?its = "all_items docs"
  from assms obtain st st2 where
    st: "merge_dicts empty_state docs = Inr st" and
    st2: "dedupe_state st = Inr st2"
    by (auto simp: merge_settings_def split: sum.splits)
  from merge_dicts_Inr [OF st]
  have items: "merge_items empty_state ?its = Inr st"
    and dicts: "\<forall>d\<in>set docs. \<exists>kvs. d = JObj kvs" by simp_all
  note F = merge_items_Inr_foldable [OF items]
  from dedupe_state_returns_iff [OF items] st2
  have G: "list_all (\<lambda>q. list_all ok_group (py_elems (snd q))) (section_items ''hooks'' ?its)"
    and H: "list_all (\<lambda>q. list_all hashable (py_elems (snd q)))
              (section_items ''permissions'' ?its)"
    by blast+
  note K = merge_settings_Inr_input(3) [OF assms]
  have "mergeable_item kv" if kv: "kv \<in> set ?its" for kv
  proof -
    from F kv have f: "foldable_item kv" by (simp add: list_all_iff)
    have sub: "set (dict_of (snd kv)) \<subseteq> set (section_items (fst kv) ?its)"
      using section_items_member [of "fst kv" "snd kv" ?its] kv by simp
    show ?thesis
      unfolding mergeable_item_def
    proof (intro conjI impI)
      assume h: "fst kv = ''hooks''"
      with f show "is_dict (snd kv)" by (simp add: foldable_item_def known_key_def)
      from f h have "list_all (\<lambda>q. iterable (snd q)) (dict_of (snd kv))"
        by (simp add: foldable_item_def known_key_def)
      with G sub h show "list_all (\<lambda>q. ok_hook_list (snd q)) (dict_of (snd kv))"
        by (auto simp: list_all_iff ok_hook_list_def)
    next
      assume p: "fst kv = ''permissions''"
      with f show "is_dict (snd kv)" by (simp add: foldable_item_def known_key_def)
      from f p have "list_all (\<lambda>q. iterable (snd q)) (dict_of (snd kv))"
        by (simp add: foldable_item_def known_key_def)
      with H K sub p
      show "list_all (\<lambda>q. known_perm_type (fst q) \<and> ok_perm_list (snd q)) (dict_of (snd kv))"
        by (auto simp: list_all_iff ok_perm_list_def)
    qed
  qed
  then have "list_all mergeable_item ?its" by (simp add: list_all_iff)
  with dicts show ?thesis
    by (auto simp: set_all_items mergeable_doc_def list_all_iff is_dict_def)
qed

lemma merge_settings_returns_iff:
  "(\<exists>r. merge_settings docs = Inr r) \<longleftrightarrow> list_all mergeable_doc docs"
  using merge_settings_mergeable merge_settings_Inr_mergeable by blast

lemma valid_docs_mergeable: "list_all valid_doc docs \<Longrightarrow> list_all mergeable_doc docs"
  using merge_settings_valid [of docs] merge_settings_Inr_mergeable by blast

subsection \<open>Where a missing key is reported\<close>

text \<open>
  A \<open>KeyError\<close> comes from one place only, the lookup of a permission type that the
  merge does not know.
\<close>

lemma py_iter_error: "py_iter v = Inl e \<Longrightarrow> e = TypeError"
  by (cases v) auto

lemma py_get_error: "py_get v k d = Inl e \<Longrightarrow> e = AttributeError"
  by (cases v) auto

lemma py_items_error: "py_items v = Inl e \<Longrightarrow> e = AttributeError"
  by (cases v) auto

lemma extend_at_KeyError:
  "extend_at d t v = Inl (KeyError k) \<Longrightarrow> k = t \<and> \<not> has_key t d"
  by (auto simp: extend_at_def has_key_def map_of_eq_None_iff
        split: option.splits sum.splits dest: py_iter_error)

lemma merge_hook_types_no_KeyError: "merge_hook_types h its \<noteq> Inl (KeyError k)"
proof (induction its arbitrary: h)
  case Nil
  show ?case by simp
next
  case (Cons kv its)
  obtain t v where kv: "kv = (t, v)" by (cases kv)
  let ?h = "if has_key t h then h else AList.update t [] h"
  have "has_key t ?h" by (simp add: has_key_update)
  then have "extend_at ?h t v \<noteq> Inl (KeyError k)" using extend_at_KeyError by blast
  with Cons.IH kv show ?case by (auto split: sum.splits)
qed

lemma merge_perm_types_KeyError:
  "merge_perm_types p its = Inl (KeyError k) \<Longrightarrow>
   \<exists>q. find (\<lambda>kv. \<not> has_key (fst kv) p) its = Some q \<and> fst q = k"
proof (induction its arbitrary: p)
  case Nil
  then show ?case by simp
next
  case (Cons kv its)
  obtain t v where kv: "kv = (t, v)" by (cases kv)
  show ?case
  proof (cases "extend_at p t v")
    case (Inl e)
    with Cons.prems kv have "extend_at p t v = Inl (KeyError k)" by simp
    from extend_at_KeyError [OF this] kv show ?thesis by simp
  next
    case (Inr p1)
    then obtain xs ys where t: "map_of p t = Some xs" and p1: "p1 = AList.update t (xs @ ys) p"
      by (auto simp: extend_at_def split: option.splits sum.splits)
    from t have ht: "has_key t p" by (auto simp: has_key_def dest: map_of_SomeD intro: rev_image_eqI)
    then have same: "has_key k' p1 = has_key k' p" for k'
      unfolding p1 by (auto simp: has_key_update)
    from Cons.prems kv Inr have "merge_perm_types p1 its = Inl (KeyError k)" by simp
    from Cons.IH [OF this] ht kv show ?thesis by (simp add: same)
  qed
qed

lemma merge_item_KeyError:
  assumes "merge_item st kv = Inl (KeyError k)"
    and "\<And>t. has_key t (current_permissions st) = known_perm_type t"
  shows "\<exists>q. first_unknown [kv] = Some q \<and> fst q = k"
proof -
  obtain key v where kv: "kv = (key, v)" by (cases kv)
  consider (h) "key = ''hooks''" | (p) "key = ''permissions''"
    | (o) "key \<noteq> ''hooks''" "key \<noteq> ''permissions''" by blast
  then show ?thesis
  proof cases
    case h
    with assms(1) kv show ?thesis
      using merge_hook_types_no_KeyError
      by (auto simp: Let_def split: sum.splits if_splits dest: py_items_error)
  next
    case p
    let ?st1 = "if has_key ''permissions'' (result st) then st
                else st\<lparr>result := AList.update ''permissions'' JNull (result st),
                        result_permissions := [(''allow'', []), (''deny'', []), (''ask'', [])]\<rparr>"
    have cur: "result_permissions ?st1 = current_permissions st"
      by (simp add: current_permissions_def)
    from assms(1) kv p obtain its where its: "py_items v = Inr its"
      by (cases "py_items v") (auto simp: Let_def dest: py_items_error)
    then have v: "v = JObj its" by (rule py_items_Inr)
    from assms(1) kv p its cur
    have "merge_perm_types (current_permissions st) its = Inl (KeyError k)"
      by (auto simp: Let_def split: sum.splits if_splits)
    from merge_perm_types_KeyError [OF this]
    show ?thesis
      using p kv v by (simp add: first_unknown_def section_items_single assms(2) dict_of_def)
  next
    case o
    with assms(1) kv show ?thesis by simp
  qed
qed

lemma merge_items_KeyError:
  "merge_items st its = Inl (KeyError k) \<Longrightarrow>
   distinct (map fst (current_hooks st)) \<Longrightarrow>
   distinct (map fst (current_permissions st)) \<Longrightarrow>
   (\<And>t. has_key t (current_permissions st) = known_perm_type t) \<Longrightarrow>
   \<exists>q. first_unknown its = Some q \<and> fst q = k"
proof (induction its arbitrary: st)
  case Nil
  then show ?case by simp
next
  case (Cons kv its)
  show ?case
  proof (cases "merge_item st kv")
    case (Inl e)
    with Cons.prems(1) have "merge_item st kv = Inl (KeyError k)" by simp
    from merge_item_KeyError [OF this Cons.prems(4)]
    show ?thesis using first_unknown_Cons [of kv its] by auto
  next
    case (Inr st1)
    note step = merge_item_Inr [OF Inr Cons.prems(2) Cons.prems(3)]
    have dh: "distinct (map fst (current_hooks st1))"
      unfolding step(2) by (rule foldl_acc_step_distinct_id [OF Cons.prems(2)])
    have dp: "distinct (map fst (current_permissions st1))"
      unfolding step(3) by (rule foldl_acc_step_distinct_id [OF Cons.prems(3)])
    have keys: "fst ` set (current_permissions st1) = fst ` set (current_permissions st)"
      unfolding step(3)
      using foldl_acc_step_keys [of "\<lambda>k. k" "current_permissions st"
              "map elems_item (section_items ''permissions'' [kv])"] step(4)
      by (auto simp: elems_item_def image_image)
    have known: "has_key t (current_permissions st1) = known_perm_type t" for t
      using Cons.prems(4) [of t] keys by (simp add: has_key_def)
    have "known_perm_type (fst q)" if "q \<in> set (section_items ''permissions'' [kv])" for q
    proof -
      from that step(4) have "fst q \<in> fst ` set (current_permissions st)" by blast
      with Cons.prems(4) [of "fst q"] show ?thesis by (simp add: has_key_def)
    qed
    then have "first_unknown [kv] = None"
      unfolding first_unknown_def find_None_iff by blast
    then have fu: "first_unknown (kv # its) = first_unknown its"
      using first_unknown_Cons [of kv its] by simp
    from Cons.prems(1) Inr have "merge_items st1 its = Inl (KeyError k)" by simp
    from Cons.IH [OF this dh dp known] show ?thesis unfolding fu .
  qed
qed

lemma merge_dicts_KeyError:
  "merge_dicts st docs = Inl (KeyError k) \<Longrightarrow>
   merge_items st (all_items docs) = Inl (KeyError k)"
proof (induction docs arbitrary: st)
  case Nil
  then show ?case by simp
next
  case (Cons d docs)
  from Cons.prems obtain its where its: "py_items d = Inr its"
    by (cases "py_items d") (auto dest: py_items_error)
  then have d: "d = JObj its" by (rule py_items_Inr)
  have all: "all_items (d # docs) = its @ all_items docs"
    by (simp add: all_items_def d dict_of_def)
  show ?case
  proof (cases "merge_items st its")
    case (Inl e)
    with Cons.prems its show ?thesis by (simp add: all merge_items_append)
  next
    case (Inr st1)
    with Cons.prems its have "merge_dicts st1 docs = Inl (KeyError k)" by simp
    from Cons.IH [OF this] Inr show ?thesis by (simp add: all merge_items_append)
  qed
qed

lemma dedupe_loop_no_KeyError: "dedupe_loop seen acc hs \<noteq> Inl (KeyError k)"
  by (induction hs arbitrary: seen acc) (auto split: sum.splits dest: py_get_error)

lemma fromkeys_no_KeyError: "fromkeys ks xs \<noteq> Inl (KeyError k)"
  by (induction xs arbitrary: ks) auto

lemma rebuild_no_KeyError: "rebuild bm \<noteq> Inl (KeyError k)"
  using dedupe_loop_no_KeyError
  by (induction bm) (auto simp: dedupe_hooks_def split: sum.splits)

lemma group_by_matcher_no_KeyError: "group_by_matcher bm es \<noteq> Inl (KeyError k)"
  by (induction es arbitrary: bm)
     (auto split: sum.splits if_splits dest: py_get_error py_iter_error)

lemma dedupe_hook_types_no_KeyError: "dedupe_hook_types h \<noteq> Inl (KeyError k)"
  using group_by_matcher_no_KeyError rebuild_no_KeyError
  by (induction h) (auto split: sum.splits)

lemma dedupe_perm_types_no_KeyError: "dedupe_perm_types p \<noteq> Inl (KeyError k)"
  using fromkeys_no_KeyError
  by (induction p) (auto split: sum.splits)

lemma dedupe_state_no_KeyError: "dedupe_state st \<noteq> Inl (KeyError k)"
  using dedupe_hook_types_no_KeyError dedupe_perm_types_no_KeyError
  by (auto simp: dedupe_state_def split: sum.splits if_splits)

lemma merge_settings_KeyError:
  assumes "merge_settings docs = Inl (KeyError k)"
  shows "\<exists>q. first_unknown (all_items docs) = Some q \<and> fst q = k"
proof -
  from assms dedupe_state_no_KeyError
  have "merge_dicts empty_state docs = Inl (KeyError k)"
    by (auto simp: merge_settings_def split: sum.splits)
  from merge_dicts_KeyError [OF this]
  have "merge_items empty_state (all_items docs) = Inl (KeyError k)" .
  from merge_items_KeyError [OF this _ _ empty_state_known]
  show ?thesis by (simp add: empty_state_sections)
qed

section \<open>The claims\<close>

text \<open>
  C1. Merging a valid document with a valid fragment gives a document, and merging that
  document with the same fragment again gives it back unchanged: no hook and no
  permission is added a second time. So it is for \<^verbatim>\<open>update_settings_file\<close>, run
  again with the same new settings on the document it has written.
\<close>

theorem merging_a_fragment_again_changes_nothing:
  assumes "valid_doc D" and "valid_doc F"
  shows "\<exists>M. merge_settings [D, F] = Inr M \<and> merge_settings [M, F] = Inr M \<and>
             update_settings_file (Some D) F = Inr M \<and>
             update_settings_file (Some M) F = Inr M"
proof -
  let ?M = "merge_spec [D, F]"
  have v: "list_all valid_doc [D, F]" using assms by simp
  have first: "merge_settings [D, F] = Inr ?M" by (rule merge_settings_valid [OF v])
  have "valid_doc ?M" by (rule merge_spec_valid [OF v])
  with assms(2) have "list_all valid_doc [?M, F]" by simp
  then have "merge_settings [?M, F] = Inr (merge_spec [?M, F])" by (rule merge_settings_valid)
  moreover have "merge_spec [?M, F] = ?M"
    using merge_spec_reapply [of "[D]" "[F]"] by simp
  ultimately have "merge_settings [?M, F] = Inr ?M" by simp
  with first show ?thesis by (simp add: update_settings_file_def)
qed

theorem merging_a_fragment_again_changes_nothing_witness:
  "valid_doc
     (JObj [(''model'', JStr ''x''),
            (''hooks'', JObj [(''PreToolUse'', JArr [JObj [(''matcher'', JStr ''Bash''),
               (''hooks'', JArr [JObj [(''command'', JStr ''run-a''),
                                       (''statusMessage'', JStr ''one'')]])]])]),
            (''permissions'', JObj [(''allow'', JArr [JStr ''A''])])]) \<and>
   valid_doc
     (JObj [(''hooks'', JObj [(''PreToolUse'', JArr [JObj [(''matcher'', JStr ''Bash''),
               (''hooks'', JArr [JObj [(''command'', JStr ''run-a''),
                                       (''statusMessage'', JStr ''two'')],
                                 JObj [(''command'', JStr ''run-b'')]])]])]),
            (''permissions'', JObj [(''allow'', JArr [JStr ''B'', JStr ''A''])]),
            (''model'', JStr ''y'')]) \<and>
   merge_settings
     [JObj [(''model'', JStr ''y''),
            (''hooks'', JObj [(''PreToolUse'', JArr [JObj [(''matcher'', JStr ''Bash''),
               (''hooks'', JArr [JObj [(''command'', JStr ''run-a''),
                                       (''statusMessage'', JStr ''one'')],
                                 JObj [(''command'', JStr ''run-b'')]])]])]),
            (''permissions'', JObj [(''allow'', JArr [JStr ''A'', JStr ''B'']),
                                    (''deny'', JArr []), (''ask'', JArr [])])],
      JObj [(''hooks'', JObj [(''PreToolUse'', JArr [JObj [(''matcher'', JStr ''Bash''),
               (''hooks'', JArr [JObj [(''command'', JStr ''run-a''),
                                       (''statusMessage'', JStr ''two'')],
                                 JObj [(''command'', JStr ''run-b'')]])]])]),
            (''permissions'', JObj [(''allow'', JArr [JStr ''B'', JStr ''A''])]),
            (''model'', JStr ''y'')]] =
   Inr (JObj [(''model'', JStr ''y''),
            (''hooks'', JObj [(''PreToolUse'', JArr [JObj [(''matcher'', JStr ''Bash''),
               (''hooks'', JArr [JObj [(''command'', JStr ''run-a''),
                                       (''statusMessage'', JStr ''one'')],
                                 JObj [(''command'', JStr ''run-b'')]])]])]),
            (''permissions'', JObj [(''allow'', JArr [JStr ''A'', JStr ''B'']),
                                    (''deny'', JArr []), (''ask'', JArr [])])])"
proof -
  let ?D = "JObj [(''model'', JStr ''x''),
            (''hooks'', JObj [(''PreToolUse'', JArr [JObj [(''matcher'', JStr ''Bash''),
               (''hooks'', JArr [JObj [(''command'', JStr ''run-a''),
                                       (''statusMessage'', JStr ''one'')]])]])]),
            (''permissions'', JObj [(''allow'', JArr [JStr ''A''])])]"
  let ?F = "JObj [(''hooks'', JObj [(''PreToolUse'', JArr [JObj [(''matcher'', JStr ''Bash''),
               (''hooks'', JArr [JObj [(''command'', JStr ''run-a''),
                                       (''statusMessage'', JStr ''two'')],
                                 JObj [(''command'', JStr ''run-b'')]])]])]),
            (''permissions'', JObj [(''allow'', JArr [JStr ''B'', JStr ''A''])]),
            (''model'', JStr ''y'')]"
  let ?M = "JObj [(''model'', JStr ''y''),
            (''hooks'', JObj [(''PreToolUse'', JArr [JObj [(''matcher'', JStr ''Bash''),
               (''hooks'', JArr [JObj [(''command'', JStr ''run-a''),
                                       (''statusMessage'', JStr ''one'')],
                                 JObj [(''command'', JStr ''run-b'')]])]])]),
            (''permissions'', JObj [(''allow'', JArr [JStr ''A'', JStr ''B'']),
                                    (''deny'', JArr []), (''ask'', JArr [])])]"
  have d: "valid_doc ?D" by code_simp
  have f: "valid_doc ?F" by code_simp
  have m: "merge_settings [?D, ?F] = Inr ?M" by code_simp
  from merging_a_fragment_again_changes_nothing [OF d f] obtain M where
    "merge_settings [?D, ?F] = Inr M" and again: "merge_settings [M, ?F] = Inr M" by blast
  with m have "M = ?M" by simp
  with again have "merge_settings [?M, ?F] = Inr ?M" by simp
  with d f show ?thesis by blast
qed

text \<open>
  C2. In the merged document the list of a hook type \<open>t\<close> has one group for each
  matcher: the matchers are pairwise different, they stand in the order of their first
  appearance among the entries that the input documents list under \<open>t\<close>
  (\<open>hook_entries\<close>, in arrival order), and the hooks of a group are the hooks of the
  entries with its matcher, concatenated in arrival order (\<open>gathered_hooks\<close>), a
  repeated command left out.
\<close>

theorem one_group_per_matcher_in_order:
  assumes "merge_settings docs = Inr r" and "lookup r ''hooks'' = Some h"
    and "lookup h t = Some l"
  shows "\<exists>gs. l = JArr gs \<and>
           distinct (map matcher_key gs) \<and>
           distinct (map matcher_of gs) \<and>
           map matcher_of gs = map matcher_of (firsts matcher_key {} (hook_entries t docs)) \<and>
           (\<forall>g\<in>set gs. \<exists>m hs. g = JObj [(''matcher'', m), (''hooks'', JArr hs)] \<and>
              hs = firsts command_key {} (gathered_hooks m (hook_entries t docs)))"
proof -
  let ?gs = "group_spec (hook_entries t docs)"
  have l: "l = JArr ?gs" by (rule merged_hook_list [OF assms])
  have keys: "distinct (map matcher_key ?gs)" by (rule group_spec_distinct)
  have "distinct (map (\<lambda>g. py_key (matcher_of g)) xs) \<Longrightarrow> distinct (map matcher_of xs)"
    for xs by (induction xs) auto
  with keys have "distinct (map matcher_of ?gs)"
    by (simp add: matcher_key_def [abs_def])
  moreover have "\<forall>g\<in>set ?gs. \<exists>m hs. g = JObj [(''matcher'', m), (''hooks'', JArr hs)] \<and>
              hs = firsts command_key {} (gathered_hooks m (hook_entries t docs))"
    using group_spec_member by blast
  ultimately show ?thesis
    using l keys group_spec_matchers by blast
qed

theorem one_group_per_matcher_in_order_witness:
  "merge_settings
     [JObj [],
      JObj [(''hooks'', JObj [(''PreToolUse'', JArr [JObj [(''matcher'', JStr ''Bash''),
         (''hooks'', JArr [JObj [(''type'', JStr ''command''), (''command'', JStr ''run-a'')]])]])])],
      JObj [(''hooks'', JObj [(''PreToolUse'', JArr [JObj [(''matcher'', JStr ''Bash''),
         (''hooks'', JArr [JObj [(''type'', JStr ''command''), (''command'', JStr ''run-b'')]])]])])]] =
   Inr (JObj [(''hooks'', JObj [(''PreToolUse'', JArr [JObj [(''matcher'', JStr ''Bash''),
         (''hooks'', JArr [JObj [(''type'', JStr ''command''), (''command'', JStr ''run-a'')],
                          JObj [(''type'', JStr ''command''), (''command'', JStr ''run-b'')]])]])])]) \<and>
   distinct (map matcher_of [JObj [(''matcher'', JStr ''Bash''),
         (''hooks'', JArr [JObj [(''type'', JStr ''command''), (''command'', JStr ''run-a'')],
                          JObj [(''type'', JStr ''command''), (''command'', JStr ''run-b'')]])]])"
proof -
  let ?a = "JObj [(''type'', JStr ''command''), (''command'', JStr ''run-a'')]"
  let ?b = "JObj [(''type'', JStr ''command''), (''command'', JStr ''run-b'')]"
  let ?docs = "[JObj [],
      JObj [(''hooks'', JObj [(''PreToolUse'', JArr [JObj [(''matcher'', JStr ''Bash''),
         (''hooks'', JArr [?a])]])])],
      JObj [(''hooks'', JObj [(''PreToolUse'', JArr [JObj [(''matcher'', JStr ''Bash''),
         (''hooks'', JArr [?b])]])])]]"
  let ?l = "JArr [JObj [(''matcher'', JStr ''Bash''), (''hooks'', JArr [?a, ?b])]]"
  let ?h = "JObj [(''PreToolUse'', ?l)]"
  have m: "merge_settings ?docs = Inr (JObj [(''hooks'', ?h)])" by code_simp
  have h: "lookup (JObj [(''hooks'', ?h)]) ''hooks'' = Some ?h"
    by (simp add: lookup_def dict_of_def)
  have l: "lookup ?h ''PreToolUse'' = Some ?l" by (simp add: lookup_def dict_of_def)
  from one_group_per_matcher_in_order [OF m h l] m show ?thesis by auto
qed

lemma firsts_first_of_each: "first_of_each_command (firsts command_key {} hs) hs"
  unfolding first_of_each_command_def
  using firsts_distinct [of command_key "{}" hs] firsts_subseq [of command_key "{}" hs]
    firsts_keys [of command_key "{}" hs] firsts_find [of _ command_key "{}" hs]
  by simp

text \<open>
  C3. \<open>dedupe_hooks\<close> keeps the first hook of each command, whole and in order, and drops
  the later ones; and in the merged document the hooks of every matcher group are what
  that leaves of the hooks gathered for the group's matcher, in merge order.
\<close>

theorem first_hook_of_each_command_kept:
  "(dedupe_hooks hs = Inr rs \<longrightarrow> first_of_each_command rs hs) \<and>
   (merge_settings docs = Inr r \<longrightarrow> lookup r ''hooks'' = Some h \<longrightarrow>
    lookup h t = Some (JArr gs) \<longrightarrow> g \<in> set gs \<longrightarrow>
      first_of_each_command (hooks_of g)
        (gathered_hooks (matcher_of g) (hook_entries t docs)))"
proof (intro conjI impI)
  assume "dedupe_hooks hs = Inr rs"
  then have "rs = firsts command_key {} hs" by (rule dedupe_hooks_Inr)
  then show "first_of_each_command rs hs" by (simp add: firsts_first_of_each)
next
  assume "merge_settings docs = Inr r" "lookup r ''hooks'' = Some h"
    "lookup h t = Some (JArr gs)" "g \<in> set gs"
  then have "hooks_of g =
      firsts command_key {} (gathered_hooks (matcher_of g) (hook_entries t docs))"
    by (rule merged_group_hooks)
  then show "first_of_each_command (hooks_of g)
        (gathered_hooks (matcher_of g) (hook_entries t docs))"
    by (simp add: firsts_first_of_each)
qed

theorem first_hook_of_each_command_kept_witness:
  "merge_settings
     [JObj [(''hooks'', JObj [(''PreToolUse'', JArr [JObj [(''matcher'', JStr ''Edit''),
        (''hooks'', JArr [JObj [(''type'', JStr ''command''),
           (''command'', JStr ''python3 .claude/hooks/x.py''),
           (''statusMessage'', JStr ''first'')]])]])])],
      JObj [(''hooks'', JObj [(''PreToolUse'', JArr [JObj [(''matcher'', JStr ''Edit''),
        (''hooks'', JArr [JObj [(''type'', JStr ''command''),
           (''command'', JStr ''python3 .claude/hooks/x.py''),
           (''statusMessage'', JStr ''second'')]])]])])]] =
   Inr (JObj [(''hooks'', JObj [(''PreToolUse'', JArr [JObj [(''matcher'', JStr ''Edit''),
        (''hooks'', JArr [JObj [(''type'', JStr ''command''),
           (''command'', JStr ''python3 .claude/hooks/x.py''),
           (''statusMessage'', JStr ''first'')]])]])])]) \<and>
   dedupe_hooks
     [JObj [(''type'', JStr ''command''), (''command'', JStr ''python3 .claude/hooks/x.py''),
            (''statusMessage'', JStr ''first'')],
      JObj [(''type'', JStr ''command''), (''command'', JStr ''python3 .claude/hooks/x.py''),
            (''statusMessage'', JStr ''second'')]] =
   Inr [JObj [(''type'', JStr ''command''), (''command'', JStr ''python3 .claude/hooks/x.py''),
              (''statusMessage'', JStr ''first'')]] \<and>
   first_of_each_command
     [JObj [(''type'', JStr ''command''), (''command'', JStr ''python3 .claude/hooks/x.py''),
            (''statusMessage'', JStr ''first'')]]
     [JObj [(''type'', JStr ''command''), (''command'', JStr ''python3 .claude/hooks/x.py''),
            (''statusMessage'', JStr ''first'')],
      JObj [(''type'', JStr ''command''), (''command'', JStr ''python3 .claude/hooks/x.py''),
            (''statusMessage'', JStr ''second'')]]"
proof -
  let ?a = "JObj [(''type'', JStr ''command''),
           (''command'', JStr ''python3 .claude/hooks/x.py''),
           (''statusMessage'', JStr ''first'')]"
  let ?b = "JObj [(''type'', JStr ''command''),
           (''command'', JStr ''python3 .claude/hooks/x.py''),
           (''statusMessage'', JStr ''second'')]"
  let ?docs = "[JObj [(''hooks'', JObj [(''PreToolUse'', JArr [JObj [(''matcher'', JStr ''Edit''),
        (''hooks'', JArr [?a])]])])],
      JObj [(''hooks'', JObj [(''PreToolUse'', JArr [JObj [(''matcher'', JStr ''Edit''),
        (''hooks'', JArr [?b])]])])]]"
  let ?g = "JObj [(''matcher'', JStr ''Edit''), (''hooks'', JArr [?a])]"
  let ?h = "JObj [(''PreToolUse'', JArr [?g])]"
  have m: "merge_settings ?docs = Inr (JObj [(''hooks'', ?h)])" by code_simp
  have h: "lookup (JObj [(''hooks'', ?h)]) ''hooks'' = Some ?h"
    by (simp add: lookup_def dict_of_def)
  have l: "lookup ?h ''PreToolUse'' = Some (JArr [?g])" by (simp add: lookup_def dict_of_def)
  have g: "?g \<in> set [?g]" by simp
  have src: "gathered_hooks (matcher_of ?g) (hook_entries ''PreToolUse'' ?docs) = [?a, ?b]"
    by code_simp
  have d: "dedupe_hooks [?a, ?b] = Inr [?a]" by code_simp
  note inst = first_hook_of_each_command_kept
    [of "[?a, ?b]" "[?a]" ?docs "JObj [(''hooks'', ?h)]" ?h "''PreToolUse''" "[?g]" ?g]
  from inst d have kept: "first_of_each_command [?a] [?a, ?b]" by blast
  from inst m h l g
  have "first_of_each_command (hooks_of ?g)
          (gathered_hooks (matcher_of ?g) (hook_entries ''PreToolUse'' ?docs))" by blast
  then have "first_of_each_command [?a] [?a, ?b]" unfolding src by simp
  with m d kept show ?thesis by blast
qed

text \<open>
  C4. When the merge returns a document, \<open>permissions\<close> is absent from it exactly when
  it is absent from every input document; when present it is a dict with exactly the
  keys \<open>allow\<close>, \<open>deny\<close> and \<open>ask\<close>, in this order, and the list under each is
  without duplicates and holds the first occurrences, in order, of what the input
  documents list under that key (\<open>perm_entries\<close>, empty when no input has the key).
\<close>

theorem permissions_deduplicated_in_order:
  assumes "merge_settings docs = Inr r"
  shows "(lookup r ''permissions'' = None \<longleftrightarrow>
            (\<forall>d\<in>set docs. lookup d ''permissions'' = None)) \<and>
         (\<forall>p. lookup r ''permissions'' = Some p \<longrightarrow>
            (\<exists>a d k. p = JObj [(''allow'', JArr a), (''deny'', JArr d), (''ask'', JArr k)] \<and>
               a = firsts py_key {} (perm_entries ''allow'' docs) \<and>
               d = firsts py_key {} (perm_entries ''deny'' docs) \<and>
               k = firsts py_key {} (perm_entries ''ask'' docs) \<and>
               distinct a \<and> distinct d \<and> distinct k))"
proof -
  have r: "r = merge_spec docs" by (rule merge_settings_Inr [OF assms])
  have dist: "distinct (firsts py_key {} xs)" for xs :: "json list"
    using firsts_distinct [of py_key "{}" xs] by (simp add: distinct_map)
  show ?thesis
    unfolding r using key_in_all_items [of "''permissions''" docs]
    by (auto simp: lookup_merge_spec perms_spec_def dist)
qed

theorem permissions_deduplicated_in_order_witness:
  "merge_settings
     [JObj [],
      JObj [(''permissions'', JObj [(''allow'', JArr [JStr ''A'', JStr ''B''])])],
      JObj [(''permissions'', JObj [(''allow'', JArr [JStr ''B'', JStr ''C''])])]] =
   Inr (JObj [(''permissions'',
          JObj [(''allow'', JArr [JStr ''A'', JStr ''B'', JStr ''C'']),
                (''deny'', JArr []), (''ask'', JArr [])])]) \<and>
   firsts py_key {}
     (perm_entries ''allow''
        [JObj [],
         JObj [(''permissions'', JObj [(''allow'', JArr [JStr ''A'', JStr ''B''])])],
         JObj [(''permissions'', JObj [(''allow'', JArr [JStr ''B'', JStr ''C''])])]]) =
   [JStr ''A'', JStr ''B'', JStr ''C'']"
proof -
  let ?docs = "[JObj [],
      JObj [(''permissions'', JObj [(''allow'', JArr [JStr ''A'', JStr ''B''])])],
      JObj [(''permissions'', JObj [(''allow'', JArr [JStr ''B'', JStr ''C''])])]]"
  let ?r = "JObj [(''permissions'',
          JObj [(''allow'', JArr [JStr ''A'', JStr ''B'', JStr ''C'']),
                (''deny'', JArr []), (''ask'', JArr [])])]"
  have m: "merge_settings ?docs = Inr ?r" by code_simp
  have "lookup ?r ''permissions'' =
     Some (JObj [(''allow'', JArr [JStr ''A'', JStr ''B'', JStr ''C'']),
                (''deny'', JArr []), (''ask'', JArr [])])"
    by (simp add: lookup_def dict_of_def)
  with permissions_deduplicated_in_order [OF m] m show ?thesis by auto
qed

text \<open>
  C5, as the code has it. The merge prunes nothing. The key \<open>hooks\<close> is absent from the
  merged document exactly when it is absent from every input document; when it is
  present, its value has one key for each hook type that the \<open>hooks\<close> section of some
  input names, in the order of first appearance, with the merged list of that hook type:
  a hook type whose lists are all empty is emitted with the empty array, and a \<open>hooks\<close>
  section with no hook type at all as the empty object. Merging empty documents, however
  many, gives the empty document, with neither \<open>hooks\<close> nor \<open>permissions\<close>.
\<close>

theorem hooks_and_hook_types_emitted_as_given:
  "(merge_settings docs = Inr r \<longrightarrow>
      (lookup r ''hooks'' = None \<longleftrightarrow> (\<forall>d\<in>set docs. lookup d ''hooks'' = None)) \<and>
      (\<forall>h. lookup r ''hooks'' = Some h \<longrightarrow>
         h = JObj (map (\<lambda>t. (t, JArr (group_spec (hook_entries t docs)))) (hook_types docs)) \<and>
         (\<forall>t. lookup h t =
               (if t \<in> set (hook_types docs)
                then Some (JArr (group_spec (hook_entries t docs))) else None)) \<and>
         (\<forall>t. t \<in> set (hook_types docs) \<and> hook_entries t docs = [] \<longrightarrow>
               lookup h t = Some (JArr [])) \<and>
         (hook_types docs = [] \<longrightarrow> h = JObj []))) \<and>
   (\<forall>t. t \<in> set (hook_types docs) \<longleftrightarrow>
      (\<exists>d\<in>set docs. \<exists>kv\<in>set (dict_of d).
         fst kv = ''hooks'' \<and> t \<in> fst ` set (dict_of (snd kv)))) \<and>
   merge_settings (replicate n (JObj [])) = Inr (JObj [])"
proof (intro conjI impI allI)
  assume "merge_settings docs = Inr r"
  then have r: "r = merge_spec docs" by (rule merge_settings_Inr)
  then show "lookup r ''hooks'' = None \<longleftrightarrow> (\<forall>d\<in>set docs. lookup d ''hooks'' = None)"
    using key_in_all_items [of "''hooks''" docs] by (simp add: lookup_merge_spec)
  fix h assume "lookup r ''hooks'' = Some h"
  then have h: "h = hooks_spec docs"
    unfolding r by (auto simp: lookup_merge_spec split: if_splits)
  show "h = JObj (map (\<lambda>t. (t, JArr (group_spec (hook_entries t docs)))) (hook_types docs))"
    unfolding h by (simp add: hooks_spec_def)
  show "lookup h t =
          (if t \<in> set (hook_types docs)
           then Some (JArr (group_spec (hook_entries t docs))) else None)" for t
    unfolding h by (rule lookup_hooks_spec)
  show "lookup h t = Some (JArr [])"
    if "t \<in> set (hook_types docs) \<and> hook_entries t docs = []" for t
    unfolding h using that by (simp add: lookup_hooks_spec group_spec_def)
  show "h = JObj []" if "hook_types docs = []"
    unfolding h using that by (simp add: hooks_spec_def)
next
  fix t
  have "set (hook_types docs) = fst ` set (section_items ''hooks'' (all_items docs))"
    by (simp add: hook_types_def firsts_id_set)
  then show "t \<in> set (hook_types docs) \<longleftrightarrow>
      (\<exists>d\<in>set docs. \<exists>kv\<in>set (dict_of d).
         fst kv = ''hooks'' \<and> t \<in> fst ` set (dict_of (snd kv)))"
    by (auto simp: set_section_items set_all_items)
next
  show "merge_settings (replicate n (JObj [])) = Inr (JObj [])" by (rule merge_all_empty)
qed

theorem hooks_and_hook_types_emitted_as_given_witness:
  "merge_settings [JObj [], JObj [(''hooks'', JObj [(''PreToolUse'', JArr [])])]] =
     Inr (JObj [(''hooks'', JObj [(''PreToolUse'', JArr [])])]) \<and>
   lookup (JObj [(''hooks'', JObj [(''PreToolUse'', JArr [])])]) ''hooks'' =
     Some (JObj [(''PreToolUse'', JArr [])]) \<and>
   \<not> (\<forall>d\<in>set [JObj [], JObj [(''hooks'', JObj [(''PreToolUse'', JArr [])])]].
        lookup d ''hooks'' = None) \<and>
   hook_types [JObj [], JObj [(''hooks'', JObj [(''PreToolUse'', JArr [])])]] =
     [''PreToolUse''] \<and>
   hook_entries ''PreToolUse'' [JObj [], JObj [(''hooks'', JObj [(''PreToolUse'', JArr [])])]] =
     [] \<and>
   lookup (JObj [(''PreToolUse'', JArr [])]) ''PreToolUse'' = Some (JArr []) \<and>
   merge_settings [JObj [(''hooks'', JObj [])], JObj []] = Inr (JObj [(''hooks'', JObj [])]) \<and>
   hook_types [JObj [(''hooks'', JObj [])], JObj []] = [] \<and>
   \<not> (\<forall>d\<in>set [JObj [(''hooks'', JObj [])], JObj []]. lookup d ''hooks'' = None) \<and>
   merge_settings (replicate 2 (JObj [])) = Inr (JObj [])"
proof -
  let ?docs0 = "[JObj [(''hooks'', JObj [])], JObj []]"
  have m0: "merge_settings ?docs0 = Inr (JObj [(''hooks'', JObj [])])" by code_simp
  have t0: "hook_types ?docs0 = []" by code_simp
  have l0: "lookup (JObj [(''hooks'', JObj [])]) ''hooks'' = Some (JObj [])"
    by (simp add: lookup_def dict_of_def)
  from hooks_and_hook_types_emitted_as_given [of ?docs0 "JObj [(''hooks'', JObj [])]" 2] m0 l0
  have n0: "\<not> (\<forall>d\<in>set ?docs0. lookup d ''hooks'' = None)" by simp
  let ?docs = "[JObj [], JObj [(''hooks'', JObj [(''PreToolUse'', JArr [])])]]"
  let ?h = "JObj [(''PreToolUse'', JArr [])]"
  have m: "merge_settings ?docs = Inr (JObj [(''hooks'', ?h)])" by code_simp
  have l: "lookup (JObj [(''hooks'', ?h)]) ''hooks'' = Some ?h"
    by (simp add: lookup_def dict_of_def)
  have t: "hook_types ?docs = [''PreToolUse'']" by code_simp
  have e: "hook_entries ''PreToolUse'' ?docs = []" by code_simp
  note inst = hooks_and_hook_types_emitted_as_given [of ?docs "JObj [(''hooks'', ?h)]" 2]
  from inst m l have "\<not> (\<forall>d\<in>set ?docs. lookup d ''hooks'' = None)" by simp
  moreover from inst m l t e have "lookup ?h ''PreToolUse'' = Some (JArr [])" by simp
  moreover from inst have "merge_settings (replicate 2 (JObj [])) = Inr (JObj [])" by blast
  ultimately show ?thesis using m l t e m0 t0 n0 by blast
qed

text \<open>
  C5 as stated fails: a document whose \<open>hooks\<close> section is empty is merged into a
  document that has the key \<open>hooks\<close>, with an empty object.
\<close>

theorem empty_hooks_section_emitted:
  "merge_settings [JObj [(''hooks'', JObj [])]] = Inr (JObj [(''hooks'', JObj [])]) \<and>
   lookup (JObj [(''hooks'', JObj [])]) ''hooks'' = Some (JObj [])"
  by (simp add: lookup_def dict_of_def) code_simp

text \<open>
  C6, as the code has it. The merge rewrites every group as a dict of \<open>matcher\<close> and
  \<open>hooks\<close>, and \<open>permissions\<close> as a dict of \<open>allow\<close>, \<open>deny\<close> and \<open>ask\<close>. A
  canonical document, which has this form (\<open>canonical_doc\<close>), is a fixed point of the
  merge: merged alone, or with an empty fragment as \<^verbatim>\<open>update_settings_file\<close> merges
  the persisted document, it comes back as it is, key for key and in the same order. The
  canonical documents are deduplicated documents, and they are the documents that the
  merge writes: merging valid documents gives a canonical one.
\<close>

theorem canonical_document_unchanged:
  "(canonical_doc D \<longrightarrow>
      merge_settings [D] = Inr D \<and> update_settings_file (Some D) (JObj []) = Inr D) \<and>
   (list_all valid_doc docs \<longrightarrow> (\<exists>r. merge_settings docs = Inr r \<and> canonical_doc r)) \<and>
   (canonical_doc D \<longrightarrow> deduplicated_doc D)"
proof (intro conjI impI)
  assume c: "canonical_doc D"
  have v: "valid_doc D" by (rule canonical_doc_valid [OF c])
  from merge_settings_valid [of "[D]"] v merge_spec_fixed [OF c]
  show "merge_settings [D] = Inr D" by simp
  have e: "valid_doc (JObj [])" by (simp add: valid_doc_def)
  have "all_items [D, JObj []] = all_items [D]" by (simp add: all_items_def dict_of_def)
  then have "merge_spec [D, JObj []] = merge_spec [D]" by (rule merge_spec_items)
  with merge_settings_valid [of "[D, JObj []]"] v e merge_spec_fixed [OF c]
  show "update_settings_file (Some D) (JObj []) = Inr D"
    by (simp add: update_settings_file_def)
next
  assume v: "list_all valid_doc docs"
  from merge_settings_valid [OF v] merge_spec_canonical [OF v]
  show "\<exists>r. merge_settings docs = Inr r \<and> canonical_doc r" by blast
next
  assume c: "canonical_doc D"
  from c have "list_all deduplicated_item (dict_of D)"
    using canonical_hooks_deduplicated canonical_permissions_deduplicated
    by (cases D) (auto simp: canonical_doc_def canonical_item_def deduplicated_item_def
          dict_of_def list_all_iff)
  with canonical_doc_valid [OF c] show "deduplicated_doc D"
    by (simp add: deduplicated_doc_def)
qed

theorem canonical_document_unchanged_witness:
  "canonical_doc
     (JObj [(''model'', JStr ''x''),
            (''hooks'', JObj [(''PreToolUse'',
               JArr [JObj [(''matcher'', JStr ''Bash''),
                           (''hooks'', JArr [JObj [(''type'', JStr ''command''),
                                                   (''command'', JStr ''run-a'')],
                                             JObj [(''type'', JStr ''command''),
                                                   (''command'', JStr ''run-b'')]])],
                     JObj [(''matcher'', JStr ''Edit''), (''hooks'', JArr [])]])]),
            (''permissions'', JObj [(''allow'', JArr [JStr ''A'', JStr ''B'']),
                                    (''deny'', JArr []), (''ask'', JArr [JStr ''A''])])]) \<and>
   merge_settings
     [JObj [(''model'', JStr ''x''),
            (''hooks'', JObj [(''PreToolUse'',
               JArr [JObj [(''matcher'', JStr ''Bash''),
                           (''hooks'', JArr [JObj [(''type'', JStr ''command''),
                                                   (''command'', JStr ''run-a'')],
                                             JObj [(''type'', JStr ''command''),
                                                   (''command'', JStr ''run-b'')]])],
                     JObj [(''matcher'', JStr ''Edit''), (''hooks'', JArr [])]])]),
            (''permissions'', JObj [(''allow'', JArr [JStr ''A'', JStr ''B'']),
                                    (''deny'', JArr []), (''ask'', JArr [JStr ''A''])])]] =
   Inr (JObj [(''model'', JStr ''x''),
            (''hooks'', JObj [(''PreToolUse'',
               JArr [JObj [(''matcher'', JStr ''Bash''),
                           (''hooks'', JArr [JObj [(''type'', JStr ''command''),
                                                   (''command'', JStr ''run-a'')],
                                             JObj [(''type'', JStr ''command''),
                                                   (''command'', JStr ''run-b'')]])],
                     JObj [(''matcher'', JStr ''Edit''), (''hooks'', JArr [])]])]),
            (''permissions'', JObj [(''allow'', JArr [JStr ''A'', JStr ''B'']),
                                    (''deny'', JArr []), (''ask'', JArr [JStr ''A''])])]) \<and>
   list_all valid_doc
     [JObj [(''permissions'', JObj [(''ask'', JArr [JStr ''A'', JStr ''A''])])],
      JObj [(''hooks'', JObj [(''PreToolUse'', JArr [JObj [(''hooks'', JArr [JObj []])]])])]] \<and>
   canonical_doc
     (JObj [(''permissions'', JObj [(''allow'', JArr []), (''deny'', JArr []),
                                    (''ask'', JArr [JStr ''A''])]),
            (''hooks'', JObj [(''PreToolUse'',
               JArr [JObj [(''matcher'', JStr ''''), (''hooks'', JArr [JObj []])]])])]) \<and>
   deduplicated_doc
     (JObj [(''model'', JStr ''x''),
            (''hooks'', JObj [(''PreToolUse'',
               JArr [JObj [(''matcher'', JStr ''Bash''),
                           (''hooks'', JArr [JObj [(''type'', JStr ''command''),
                                                   (''command'', JStr ''run-a'')],
                                             JObj [(''type'', JStr ''command''),
                                                   (''command'', JStr ''run-b'')]])],
                     JObj [(''matcher'', JStr ''Edit''), (''hooks'', JArr [])]])]),
            (''permissions'', JObj [(''allow'', JArr [JStr ''A'', JStr ''B'']),
                                    (''deny'', JArr []), (''ask'', JArr [JStr ''A''])])])"
proof -
  let ?D = "JObj [(''model'', JStr ''x''),
            (''hooks'', JObj [(''PreToolUse'',
               JArr [JObj [(''matcher'', JStr ''Bash''),
                           (''hooks'', JArr [JObj [(''type'', JStr ''command''),
                                                   (''command'', JStr ''run-a'')],
                                             JObj [(''type'', JStr ''command''),
                                                   (''command'', JStr ''run-b'')]])],
                     JObj [(''matcher'', JStr ''Edit''), (''hooks'', JArr [])]])]),
            (''permissions'', JObj [(''allow'', JArr [JStr ''A'', JStr ''B'']),
                                    (''deny'', JArr []), (''ask'', JArr [JStr ''A''])])]"
  let ?docs = "[JObj [(''permissions'', JObj [(''ask'', JArr [JStr ''A'', JStr ''A''])])],
      JObj [(''hooks'', JObj [(''PreToolUse'', JArr [JObj [(''hooks'', JArr [JObj []])]])])]]"
  let ?r = "JObj [(''permissions'', JObj [(''allow'', JArr []), (''deny'', JArr []),
                                    (''ask'', JArr [JStr ''A''])]),
            (''hooks'', JObj [(''PreToolUse'',
               JArr [JObj [(''matcher'', JStr ''''), (''hooks'', JArr [JObj []])]])])]"
  have c: "canonical_doc ?D" by code_simp
  have v: "list_all valid_doc ?docs" by code_simp
  have m: "merge_settings ?docs = Inr ?r" by code_simp
  note inst = canonical_document_unchanged [of ?D ?docs]
  from inst c have fixed: "merge_settings [?D] = Inr ?D" by blast
  from inst v obtain r where "merge_settings ?docs = Inr r" "canonical_doc r" by blast
  with m have "canonical_doc ?r" by simp
  moreover from inst c have "deduplicated_doc ?D" by blast
  ultimately show ?thesis using c fixed v by blast
qed

text \<open>
  C6 as stated fails: a deduplicated document is not always a fixed point. A group
  without \<open>matcher\<close> comes back with the empty string as its matcher, and a group with
  a key other than \<open>matcher\<close> and \<open>hooks\<close> comes back without it.
\<close>

theorem deduplicated_document_rewritten:
  "deduplicated_doc
     (JObj [(''hooks'', JObj [(''PreToolUse'',
        JArr [JObj [(''hooks'', JArr [JObj [(''type'', JStr ''command''),
                                            (''command'', JStr ''run-a'')]])]])])]) \<and>
   merge_settings
     [JObj [(''hooks'', JObj [(''PreToolUse'',
        JArr [JObj [(''hooks'', JArr [JObj [(''type'', JStr ''command''),
                                            (''command'', JStr ''run-a'')]])]])])]] =
   Inr (JObj [(''hooks'', JObj [(''PreToolUse'',
        JArr [JObj [(''matcher'', JStr ''''),
                    (''hooks'', JArr [JObj [(''type'', JStr ''command''),
                                            (''command'', JStr ''run-a'')]])]])])]) \<and>
   JObj [(''hooks'', JObj [(''PreToolUse'',
        JArr [JObj [(''matcher'', JStr ''''),
                    (''hooks'', JArr [JObj [(''type'', JStr ''command''),
                                            (''command'', JStr ''run-a'')]])]])])] \<noteq>
   JObj [(''hooks'', JObj [(''PreToolUse'',
        JArr [JObj [(''hooks'', JArr [JObj [(''type'', JStr ''command''),
                                            (''command'', JStr ''run-a'')]])]])])] \<and>
   deduplicated_doc
     (JObj [(''hooks'', JObj [(''PreToolUse'',
        JArr [JObj [(''matcher'', JStr ''Bash''),
                    (''hooks'', JArr [JObj [(''type'', JStr ''command''),
                                            (''command'', JStr ''run-a'')]]),
                    (''description'', JStr ''lint'')]])])]) \<and>
   merge_settings
     [JObj [(''hooks'', JObj [(''PreToolUse'',
        JArr [JObj [(''matcher'', JStr ''Bash''),
                    (''hooks'', JArr [JObj [(''type'', JStr ''command''),
                                            (''command'', JStr ''run-a'')]]),
                    (''description'', JStr ''lint'')]])])]] =
   Inr (JObj [(''hooks'', JObj [(''PreToolUse'',
        JArr [JObj [(''matcher'', JStr ''Bash''),
                    (''hooks'', JArr [JObj [(''type'', JStr ''command''),
                                            (''command'', JStr ''run-a'')]])]])])]) \<and>
   JObj [(''hooks'', JObj [(''PreToolUse'',
        JArr [JObj [(''matcher'', JStr ''Bash''),
                    (''hooks'', JArr [JObj [(''type'', JStr ''command''),
                                            (''command'', JStr ''run-a'')]])]])])] \<noteq>
   JObj [(''hooks'', JObj [(''PreToolUse'',
        JArr [JObj [(''matcher'', JStr ''Bash''),
                    (''hooks'', JArr [JObj [(''type'', JStr ''command''),
                                            (''command'', JStr ''run-a'')]]),
                    (''description'', JStr ''lint'')]])])]"
proof -
  let ?a = "JObj [(''type'', JStr ''command''), (''command'', JStr ''run-a'')]"
  let ?D1 = "JObj [(''hooks'', JObj [(''PreToolUse'', JArr [JObj [(''hooks'', JArr [?a])]])])]"
  let ?D2 = "JObj [(''hooks'', JObj [(''PreToolUse'',
        JArr [JObj [(''matcher'', JStr ''Bash''), (''hooks'', JArr [?a]),
                    (''description'', JStr ''lint'')]])])]"
  have "deduplicated_doc ?D1" by code_simp
  moreover have "merge_settings [?D1] =
     Inr (JObj [(''hooks'', JObj [(''PreToolUse'',
        JArr [JObj [(''matcher'', JStr ''''), (''hooks'', JArr [?a])]])])])" by code_simp
  moreover have "deduplicated_doc ?D2" by code_simp
  moreover have "merge_settings [?D2] =
     Inr (JObj [(''hooks'', JObj [(''PreToolUse'',
        JArr [JObj [(''matcher'', JStr ''Bash''), (''hooks'', JArr [?a])]])])])" by code_simp
  ultimately show ?thesis by simp
qed

text \<open>
  C7. A top-level key other than \<open>hooks\<close> and \<open>permissions\<close> has in the merged
  document the value it has in the last input document with the key, unchanged, and is
  absent when no input has it; and such keys are never the cause of an error: the merge
  raises an error exactly when it raises that error on the documents without them.
\<close>

theorem other_keys_pass_through_last_wins:
  "(merge_settings docs = Inr r \<longrightarrow> k \<noteq> ''hooks'' \<longrightarrow> k \<noteq> ''permissions'' \<longrightarrow>
    list_all (\<lambda>d. distinct (map fst (dict_of d))) docs \<longrightarrow>
      lookup r k = (case last_with_key k docs of None \<Rightarrow> None | Some d \<Rightarrow> lookup d k)) \<and>
   (merge_settings docs = Inl e \<longleftrightarrow> merge_settings (map known_only docs) = Inl e)"
proof (intro conjI impI)
  assume m: "merge_settings docs = Inr r" and k: "k \<noteq> ''hooks''" "k \<noteq> ''permissions''"
    and dist: "list_all (\<lambda>d. distinct (map fst (dict_of d))) docs"
  have r: "r = merge_spec docs" by (rule merge_settings_Inr [OF m])
  have "k \<in> fst ` set (all_items docs) \<longleftrightarrow> map_of (rev (all_items docs)) k \<noteq> None"
    by (simp add: map_of_eq_None_iff)
  then have "lookup r k = map_of (rev (all_items docs)) k"
    unfolding r using k by (auto simp: lookup_merge_spec last_value_def)
  with last_item_last_doc [OF dist, of k]
  show "lookup r k = (case last_with_key k docs of None \<Rightarrow> None | Some d \<Rightarrow> lookup d k)"
    by simp
next
  show "merge_settings docs = Inl e \<longleftrightarrow> merge_settings (map known_only docs) = Inl e"
    by (rule merge_settings_known)
qed

theorem other_keys_pass_through_last_wins_witness:
  "merge_settings
     [JObj [(''theme'', JStr ''dark''), (''model'', JNum 1)],
      JObj [(''theme'', JObj [(''hooks'', JArr [])])], JObj [(''x'', JNull)]] =
   Inr (JObj [(''theme'', JObj [(''hooks'', JArr [])]), (''model'', JNum 1), (''x'', JNull)]) \<and>
   last_with_key ''theme''
     [JObj [(''theme'', JStr ''dark''), (''model'', JNum 1)],
      JObj [(''theme'', JObj [(''hooks'', JArr [])])], JObj [(''x'', JNull)]] =
   Some (JObj [(''theme'', JObj [(''hooks'', JArr [])])]) \<and>
   lookup (JObj [(''theme'', JObj [(''hooks'', JArr [])]), (''model'', JNum 1), (''x'', JNull)])
     ''theme'' = Some (JObj [(''hooks'', JArr [])]) \<and>
   merge_settings [JObj [(''theme'', JStr ''dark''), (''permissions'', JNull)]] =
     Inl AttributeError \<and>
   merge_settings (map known_only [JObj [(''theme'', JStr ''dark''), (''permissions'', JNull)]]) =
     Inl AttributeError"
proof -
  let ?docs = "[JObj [(''theme'', JStr ''dark''), (''model'', JNum 1)],
      JObj [(''theme'', JObj [(''hooks'', JArr [])])], JObj [(''x'', JNull)]]"
  let ?r = "JObj [(''theme'', JObj [(''hooks'', JArr [])]), (''model'', JNum 1), (''x'', JNull)]"
  let ?bad = "[JObj [(''theme'', JStr ''dark''), (''permissions'', JNull)]]"
  have m: "merge_settings ?docs = Inr ?r" by code_simp
  have d: "list_all (\<lambda>d. distinct (map fst (dict_of d))) ?docs" by code_simp
  have l: "last_with_key ''theme'' ?docs = Some (JObj [(''theme'', JObj [(''hooks'', JArr [])])])"
    by code_simp
  have b: "merge_settings ?bad = Inl AttributeError" by code_simp
  from other_keys_pass_through_last_wins [of ?docs ?r "''theme''"] m d l
  have v: "lookup ?r ''theme'' = Some (JObj [(''hooks'', JArr [])])"
    by (simp add: lookup_def dict_of_def)
  from other_keys_pass_through_last_wins [of ?bad _ _ AttributeError] b
  have "merge_settings (map known_only ?bad) = Inl AttributeError" by blast
  with m l v b show ?thesis by blast
qed

text \<open>
  C8, as the code has it. The merge has no validation of its own: it raises where one of
  its Python operations fails, and it returns a document everywhere else. It returns
  exactly on the mergeable documents (\<open>mergeable_doc\<close>): every document a dict, its
  \<open>hooks\<close> and \<open>permissions\<close> dicts, the value of every hook type iterable to groups
  that are dicts with a hashable \<open>matcher\<close> and \<open>hooks\<close> iterable to dicts with a
  hashable \<open>command\<close>, every permission type one of \<open>allow\<close>, \<open>deny\<close> and \<open>ask\<close>
  with a value iterable to hashable values. On every other input it raises an error: a
  result is either an error or a whole merged document, never a partial one. The valid
  documents, however sparse (every key is optional in \<open>valid_doc\<close>), are mergeable, so
  the merge never raises on them; an input that is not a dict, or holds under \<open>hooks\<close>
  or \<open>permissions\<close> a value that is not a dict, is not mergeable. The same holds of
  \<^verbatim>\<open>update_settings_file\<close>, which merges the persisted document, if there is one,
  with the new settings.
\<close>

theorem merge_raises_exactly_on_unmergeable_input:
  "((\<exists>r. merge_settings docs = Inr r) \<longleftrightarrow> list_all mergeable_doc docs) \<and>
   ((\<exists>e. merge_settings docs = Inl e) \<longleftrightarrow> \<not> list_all mergeable_doc docs) \<and>
   (list_all valid_doc docs \<longrightarrow>
      list_all mergeable_doc docs \<and> (\<exists>r. merge_settings docs = Inr r)) \<and>
   (section_not_dict_in docs \<longrightarrow>
      \<not> list_all mergeable_doc docs \<and> (\<exists>e. merge_settings docs = Inl e)) \<and>
   ((\<exists>r. update_settings_file existing new_settings = Inr r) \<longleftrightarrow>
      (case existing of None \<Rightarrow> True | Some d \<Rightarrow> mergeable_doc d) \<and>
      mergeable_doc new_settings) \<and>
   ((\<exists>e. update_settings_file existing new_settings = Inl e) \<longleftrightarrow>
      \<not> ((case existing of None \<Rightarrow> True | Some d \<Rightarrow> mergeable_doc d) \<and>
         mergeable_doc new_settings))"
proof -
  have ret: "(\<exists>r. merge_settings ds = Inr r) \<longleftrightarrow> list_all mergeable_doc ds" for ds
    by (rule merge_settings_returns_iff)
  have err: "(\<exists>e. merge_settings ds = Inl e) \<longleftrightarrow> \<not> list_all mergeable_doc ds" for ds
  proof -
    have "(\<exists>e. merge_settings ds = Inl e) \<longleftrightarrow> \<not> (\<exists>r. merge_settings ds = Inr r)"
      by (cases "merge_settings ds") simp_all
    then show ?thesis by (simp only: ret)
  qed
  have valid: "list_all mergeable_doc docs \<and> (\<exists>r. merge_settings docs = Inr r)"
    if "list_all valid_doc docs"
    using valid_docs_mergeable [OF that] ret [of docs] by simp
  have bad: "\<not> list_all mergeable_doc docs" if s: "section_not_dict_in docs"
  proof
    assume m: "list_all mergeable_doc docs"
    from s obtain d where d: "d \<in> set docs" and
      "\<not> is_dict d \<or> (\<exists>kv\<in>set (dict_of d).
          (fst kv = ''hooks'' \<or> fst kv = ''permissions'') \<and> \<not> is_dict (snd kv))"
      by (auto simp: section_not_dict_in_def list_ex_iff)
    moreover from m d have "mergeable_doc d" by (simp add: list_all_iff)
    ultimately show False
      by (auto simp: mergeable_doc_def mergeable_item_def list_all_iff)
  qed
  have empty: "mergeable_doc (JObj [])" by (simp add: mergeable_doc_def is_dict_def dict_of_def)
  have upd: "list_all mergeable_doc [case existing of None \<Rightarrow> JObj [] | Some d \<Rightarrow> d, new_settings]
        \<longleftrightarrow> (case existing of None \<Rightarrow> True | Some d \<Rightarrow> mergeable_doc d) \<and>
            mergeable_doc new_settings"
    using empty by (cases existing) simp_all
  show ?thesis
  proof (intro conjI impI)
    show "(\<exists>r. merge_settings docs = Inr r) \<longleftrightarrow> list_all mergeable_doc docs" by (rule ret)
    show "(\<exists>e. merge_settings docs = Inl e) \<longleftrightarrow> \<not> list_all mergeable_doc docs" by (rule err)
    show "list_all mergeable_doc docs" if "list_all valid_doc docs"
      using valid [OF that] by simp
    show "\<exists>r. merge_settings docs = Inr r" if "list_all valid_doc docs"
      using valid [OF that] by simp
    show "\<not> list_all mergeable_doc docs" if "section_not_dict_in docs"
      by (rule bad [OF that])
    show "\<exists>e. merge_settings docs = Inl e" if "section_not_dict_in docs"
      using bad [OF that] err [of docs] by simp
    show "(\<exists>r. update_settings_file existing new_settings = Inr r) \<longleftrightarrow>
      (case existing of None \<Rightarrow> True | Some d \<Rightarrow> mergeable_doc d) \<and>
      mergeable_doc new_settings"
      unfolding update_settings_file_def ret upd ..
    show "(\<exists>e. update_settings_file existing new_settings = Inl e) \<longleftrightarrow>
      \<not> ((case existing of None \<Rightarrow> True | Some d \<Rightarrow> mergeable_doc d) \<and>
         mergeable_doc new_settings)"
      unfolding update_settings_file_def err upd ..
  qed
qed

theorem merge_raises_exactly_on_unmergeable_input_witness:
  "list_all valid_doc
     [JObj [(''permissions'', JObj [(''allow'', JArr [JStr ''Skill(x)''])])],
      JObj [(''hooks'', JObj [(''PreToolUse'', JArr [JObj [(''hooks'', JArr [JObj []])]])])]] \<and>
   update_settings_file
     (Some (JObj [(''permissions'', JObj [(''allow'', JArr [JStr ''Skill(x)''])])]))
     (JObj [(''hooks'', JObj [(''PreToolUse'', JArr [JObj [(''hooks'', JArr [JObj []])]])])]) =
   Inr (JObj [(''permissions'', JObj [(''allow'', JArr [JStr ''Skill(x)'']),
                                     (''deny'', JArr []), (''ask'', JArr [])]),
              (''hooks'', JObj [(''PreToolUse'',
                 JArr [JObj [(''matcher'', JStr ''''), (''hooks'', JArr [JObj []])]])])]) \<and>
   section_not_dict_in [JObj [(''hooks'', JArr [])]] \<and>
   merge_settings [JObj [(''hooks'', JArr [])]] = Inl AttributeError \<and>
   update_settings_file (Some (JObj [(''hooks'', JArr [])])) (JObj []) = Inl AttributeError \<and>
   \<not> mergeable_doc (JObj [(''hooks'', JObj [(''PreToolUse'', JNull)])]) \<and>
   merge_settings [JObj [(''hooks'', JObj [(''PreToolUse'', JNull)])]] = Inl TypeError \<and>
   \<not> mergeable_doc (JObj [(''permissions'', JObj [(''allow'', JNum 5)])]) \<and>
   merge_settings [JObj [(''permissions'', JObj [(''allow'', JNum 5)])]] = Inl TypeError \<and>
   \<not> mergeable_doc (JObj [(''hooks'', JObj [(''PreToolUse'', JArr [JNum 3])])]) \<and>
   merge_settings [JObj [(''hooks'', JObj [(''PreToolUse'', JArr [JNum 3])])]] =
     Inl AttributeError \<and>
   \<not> mergeable_doc
       (JObj [(''hooks'', JObj [(''PreToolUse'', JArr [JObj [(''hooks'', JArr [JStr ''x''])]])])]) \<and>
   merge_settings
     [JObj [(''hooks'', JObj [(''PreToolUse'', JArr [JObj [(''hooks'', JArr [JStr ''x''])]])])]] =
     Inl AttributeError \<and>
   \<not> mergeable_doc
       (JObj [(''hooks'', JObj [(''PreToolUse'', JArr [JObj [(''matcher'', JArr [])]])])]) \<and>
   merge_settings
     [JObj [(''hooks'', JObj [(''PreToolUse'', JArr [JObj [(''matcher'', JArr [])]])])]] =
     Inl TypeError \<and>
   \<not> mergeable_doc (JObj [(''permissions'', JObj [(''allow'', JArr [JArr []])])]) \<and>
   merge_settings [JObj [(''permissions'', JObj [(''allow'', JArr [JArr []])])]] = Inl TypeError"
proof -
  let ?d = "JObj [(''permissions'', JObj [(''allow'', JArr [JStr ''Skill(x)''])])]"
  let ?n = "JObj [(''hooks'', JObj [(''PreToolUse'', JArr [JObj [(''hooks'', JArr [JObj []])]])])]"
  let ?b = "JObj [(''hooks'', JArr [])]"
  let ?b1 = "JObj [(''hooks'', JObj [(''PreToolUse'', JNull)])]"
  let ?b2 = "JObj [(''permissions'', JObj [(''allow'', JNum 5)])]"
  let ?b3 = "JObj [(''hooks'', JObj [(''PreToolUse'', JArr [JNum 3])])]"
  let ?b4 = "JObj [(''hooks'', JObj [(''PreToolUse'', JArr [JObj [(''hooks'', JArr [JStr ''x''])]])])]"
  let ?b5 = "JObj [(''hooks'', JObj [(''PreToolUse'', JArr [JObj [(''matcher'', JArr [])]])])]"
  let ?b6 = "JObj [(''permissions'', JObj [(''allow'', JArr [JArr []])])]"
  note inst = merge_raises_exactly_on_unmergeable_input
  have v: "list_all valid_doc [?d, ?n]" by code_simp
  have b: "section_not_dict_in [?b]" by code_simp
  from inst [of "[?d, ?n]" "Some ?d" ?n] v
  have "mergeable_doc ?d \<and> mergeable_doc ?n" by simp
  with inst [of "[?d, ?n]" "Some ?d" ?n]
  obtain r where r: "update_settings_file (Some ?d) ?n = Inr r" by auto
  have u: "update_settings_file (Some ?d) ?n =
     Inr (JObj [(''permissions'', JObj [(''allow'', JArr [JStr ''Skill(x)'']),
                                     (''deny'', JArr []), (''ask'', JArr [])]),
              (''hooks'', JObj [(''PreToolUse'',
                 JArr [JObj [(''matcher'', JStr ''''), (''hooks'', JArr [JObj []])]])])])"
    by code_simp
  from inst [of "[?b]" "Some ?b" "JObj []"] b
  have nb: "\<not> mergeable_doc ?b" by simp
  with inst [of "[?b]" "Some ?b" "JObj []"]
  obtain e e' where "merge_settings [?b] = Inl e"
    "update_settings_file (Some ?b) (JObj []) = Inl e'" by auto
  have eb: "merge_settings [?b] = Inl AttributeError"
    "update_settings_file (Some ?b) (JObj []) = Inl AttributeError" by code_simp+
  have n1: "\<not> mergeable_doc ?b1" by code_simp
  have n2: "\<not> mergeable_doc ?b2" by code_simp
  have n3: "\<not> mergeable_doc ?b3" by code_simp
  have n4: "\<not> mergeable_doc ?b4" by code_simp
  have n5: "\<not> mergeable_doc ?b5" by code_simp
  have n6: "\<not> mergeable_doc ?b6" by code_simp
  have e1: "merge_settings [?b1] = Inl TypeError" by code_simp
  have e2: "merge_settings [?b2] = Inl TypeError" by code_simp
  have e3: "merge_settings [?b3] = Inl AttributeError" by code_simp
  have e4: "merge_settings [?b4] = Inl AttributeError" by code_simp
  have e5: "merge_settings [?b5] = Inl TypeError" by code_simp
  have e6: "merge_settings [?b6] = Inl TypeError" by code_simp
  from v u b eb n1 n2 n3 n4 n5 n6 e1 e2 e3 e4 e5 e6 show ?thesis by blast
qed

text \<open>
  C8 as stated fails: a persisted document whose \<open>permissions.allow\<close> is a string, not
  a list of strings, is not rejected; the string is iterated and its characters are
  merged as permissions.
\<close>

theorem string_permission_list_is_merged:
  "\<not> valid_doc (JObj [(''permissions'', JObj [(''allow'', JStr ''ab'')])]) \<and>
   update_settings_file (Some (JObj [(''permissions'', JObj [(''allow'', JStr ''ab'')])]))
     (JObj []) =
   Inr (JObj [(''permissions'', JObj [(''allow'', JArr [JStr ''a'', JStr ''b'']),
                                     (''deny'', JArr []), (''ask'', JArr [])])])"
  by code_simp

text \<open>
  C9, as the code has it. When the \<open>permissions\<close> dict of some input document has a key
  other than \<open>allow\<close>, \<open>deny\<close> and \<open>ask\<close>, the merge raises an error, whatever else
  the input holds. The error is the \<open>KeyError\<close> of the first such key in merge order
  when the fold meets no other failure, as on foldable documents (\<open>foldable_doc\<close>: the
  documents and their \<open>hooks\<close> and \<open>permissions\<close> are dicts, and the values in these
  two are iterable). And the merge raises a \<open>KeyError\<close> for nothing else: the key it
  reports is the first unknown permission type in merge order.
\<close>

theorem unknown_permission_sub_key_raises:
  "(unknown_perm_type_in docs \<longrightarrow> (\<exists>e. merge_settings docs = Inl e)) \<and>
   (unknown_perm_type_in docs \<longrightarrow> list_all foldable_doc docs \<longrightarrow>
      (\<exists>q. first_unknown (all_items docs) = Some q \<and> \<not> known_perm_type (fst q) \<and>
           merge_settings docs = Inl (KeyError (fst q)))) \<and>
   (merge_settings docs = Inl (KeyError k) \<longrightarrow>
      \<not> known_perm_type k \<and> (\<exists>q. first_unknown (all_items docs) = Some q \<and> fst q = k))"
proof (intro conjI impI)
  assume u: "unknown_perm_type_in docs"
  have "merge_settings docs \<noteq> Inr r" for r
    using merge_settings_Inr_input(3) [of docs r] unknown_perm_type_item [OF u]
    by (auto simp: list_all_iff)
  then show "\<exists>e. merge_settings docs = Inl e" by (rule not_Inr_is_Inl)
next
  assume u: "unknown_perm_type_in docs" and s: "list_all foldable_doc docs"
  from unknown_perm_type_item [OF u] obtain q where
    q: "first_unknown (all_items docs) = Some q"
    by (cases "first_unknown (all_items docs)") (auto simp: first_unknown_def find_None_iff)
  then have "\<not> known_perm_type (fst q)"
    by (auto simp: first_unknown_def find_Some_iff)
  with q merge_settings_foldable_unknown [OF s q]
  show "\<exists>q. first_unknown (all_items docs) = Some q \<and> \<not> known_perm_type (fst q) \<and>
           merge_settings docs = Inl (KeyError (fst q))" by simp
next
  assume e: "merge_settings docs = Inl (KeyError k)"
  from merge_settings_KeyError [OF e] obtain q where
    q: "first_unknown (all_items docs) = Some q" and k: "fst q = k" by blast
  from q have "\<not> known_perm_type (fst q)"
    by (auto simp: first_unknown_def find_Some_iff)
  with k show "\<not> known_perm_type k" by simp
  from q k show "\<exists>q. first_unknown (all_items docs) = Some q \<and> fst q = k" by blast
qed

theorem unknown_permission_sub_key_raises_witness:
  "unknown_perm_type_in
     [JObj [(''theme'', JStr ''dark'')],
      JObj [(''permissions'', JObj [(''allow'', JStr ''A''), (''block'', JArr [])])]] \<and>
   list_all foldable_doc
     [JObj [(''theme'', JStr ''dark'')],
      JObj [(''permissions'', JObj [(''allow'', JStr ''A''), (''block'', JArr [])])]] \<and>
   merge_settings
     [JObj [(''theme'', JStr ''dark'')],
      JObj [(''permissions'', JObj [(''allow'', JStr ''A''), (''block'', JArr [])])]] =
   Inl (KeyError ''block'') \<and>
   first_unknown (all_items
     [JObj [(''theme'', JStr ''dark'')],
      JObj [(''permissions'', JObj [(''allow'', JStr ''A''), (''block'', JArr [])])]]) =
   Some (''block'', JArr []) \<and>
   \<not> known_perm_type ''block''"
proof -
  let ?docs = "[JObj [(''theme'', JStr ''dark'')],
      JObj [(''permissions'', JObj [(''allow'', JStr ''A''), (''block'', JArr [])])]]"
  have u: "unknown_perm_type_in ?docs" by code_simp
  have s: "list_all foldable_doc ?docs" by code_simp
  have f: "first_unknown (all_items ?docs) = Some (''block'', JArr [])" by code_simp
  note inst = unknown_permission_sub_key_raises [of ?docs "''block''"]
  from inst u s f have m: "merge_settings ?docs = Inl (KeyError ''block'')" by auto
  with inst have "\<not> known_perm_type ''block''" by blast
  with u s f m show ?thesis by blast
qed

text \<open>
  C9 as stated fails: the error is not always the failure of the lookup of the unknown
  key. Here \<open>permissions\<close> has the unknown key \<open>block\<close>, and the merge raises a
  \<open>TypeError\<close> at the key \<open>allow\<close> before it, whose value is a number and cannot be
  iterated.
\<close>

theorem unknown_permission_sub_key_other_error:
  "unknown_perm_type_in
     [JObj [(''permissions'', JObj [(''allow'', JNum 5), (''block'', JArr [])])]] \<and>
   merge_settings
     [JObj [(''permissions'', JObj [(''allow'', JNum 5), (''block'', JArr [])])]] =
   Inl TypeError"
  by code_simp

lemma firsts_one_blank: "one_blank_command (firsts command_key {} hs) hs"
proof -
  let ?rs = "firsts command_key {} hs"
  have blank: "blank_command = (\<lambda>x. command_key x = JStr '''')"
    by (simp add: fun_eq_iff blank_command_key)
  have one: "length (filter blank_command ?rs) \<le> 1"
    unfolding blank by (rule filter_key_le_one) (rule firsts_distinct)
  have first: "find blank_command hs = Some x" if "x \<in> set ?rs" "blank_command x" for x
  proof -
    from that(2) have "(\<lambda>y. command_key y = command_key x) = blank_command"
      by (simp add: blank blank_command_key)
    with firsts_find [OF that(1)] show ?thesis by simp
  qed
  have some: "list_ex blank_command ?rs" if "list_ex blank_command hs"
  proof -
    from that obtain x where "x \<in> set hs" "command_key x = JStr ''''"
      by (auto simp: list_ex_iff blank_command_key)
    then have "JStr '''' \<in> command_key ` set hs" by (metis imageI)
    then have "JStr '''' \<in> command_key ` set ?rs" by (simp add: firsts_keys)
    then show ?thesis by (auto simp: list_ex_iff blank_command_key)
  qed
  from one first some show ?thesis by (simp add: one_blank_command_def)
qed

text \<open>
  C10. A hook with no \<open>command\<close> counts as one whose command is the empty string: of
  the hooks with no or an empty command \<open>dedupe_hooks\<close> keeps the first and only the
  first, and so do the hooks of every matcher group of the merged document.
\<close>

theorem missing_command_is_empty_command:
  "(dedupe_hooks hs = Inr rs \<longrightarrow> one_blank_command rs hs) \<and>
   (merge_settings docs = Inr r \<longrightarrow> lookup r ''hooks'' = Some h \<longrightarrow>
    lookup h t = Some (JArr gs) \<longrightarrow> g \<in> set gs \<longrightarrow>
      one_blank_command (hooks_of g)
        (gathered_hooks (matcher_of g) (hook_entries t docs)))"
proof (intro conjI impI)
  assume "dedupe_hooks hs = Inr rs"
  then have "rs = firsts command_key {} hs" by (rule dedupe_hooks_Inr)
  then show "one_blank_command rs hs" by (simp add: firsts_one_blank)
next
  assume "merge_settings docs = Inr r" "lookup r ''hooks'' = Some h"
    "lookup h t = Some (JArr gs)" "g \<in> set gs"
  then have "hooks_of g =
      firsts command_key {} (gathered_hooks (matcher_of g) (hook_entries t docs))"
    by (rule merged_group_hooks)
  then show "one_blank_command (hooks_of g)
        (gathered_hooks (matcher_of g) (hook_entries t docs))"
    by (simp add: firsts_one_blank)
qed

theorem missing_command_is_empty_command_witness:
  "dedupe_hooks
     [JObj [(''type'', JStr ''command'')],
      JObj [(''type'', JStr ''command''), (''command'', JStr '''')],
      JObj [(''type'', JStr ''command''), (''command'', JStr ''run'')],
      JObj [(''statusMessage'', JStr ''again'')]] =
   Inr [JObj [(''type'', JStr ''command'')],
        JObj [(''type'', JStr ''command''), (''command'', JStr ''run'')]] \<and>
   one_blank_command
     [JObj [(''type'', JStr ''command'')],
      JObj [(''type'', JStr ''command''), (''command'', JStr ''run'')]]
     [JObj [(''type'', JStr ''command'')],
      JObj [(''type'', JStr ''command''), (''command'', JStr '''')],
      JObj [(''type'', JStr ''command''), (''command'', JStr ''run'')],
      JObj [(''statusMessage'', JStr ''again'')]] \<and>
   merge_settings
     [JObj [(''hooks'', JObj [(''PostToolUse'', JArr
        [JObj [(''matcher'', JStr ''Edit''), (''hooks'', JArr [JObj [(''command'', JStr '''')]])],
         JObj [(''matcher'', JStr ''Edit''), (''hooks'', JArr [JObj []])]])])]] =
   Inr (JObj [(''hooks'', JObj [(''PostToolUse'', JArr
        [JObj [(''matcher'', JStr ''Edit''),
               (''hooks'', JArr [JObj [(''command'', JStr '''')]])]])])]) \<and>
   one_blank_command [JObj [(''command'', JStr '''')]] [JObj [(''command'', JStr '''')], JObj []]"
proof -
  let ?hs = "[JObj [(''type'', JStr ''command'')],
      JObj [(''type'', JStr ''command''), (''command'', JStr '''')],
      JObj [(''type'', JStr ''command''), (''command'', JStr ''run'')],
      JObj [(''statusMessage'', JStr ''again'')]]"
  let ?rs = "[JObj [(''type'', JStr ''command'')],
        JObj [(''type'', JStr ''command''), (''command'', JStr ''run'')]]"
  let ?docs = "[JObj [(''hooks'', JObj [(''PostToolUse'', JArr
        [JObj [(''matcher'', JStr ''Edit''), (''hooks'', JArr [JObj [(''command'', JStr '''')]])],
         JObj [(''matcher'', JStr ''Edit''), (''hooks'', JArr [JObj []])]])])]]"
  let ?g = "JObj [(''matcher'', JStr ''Edit''),
               (''hooks'', JArr [JObj [(''command'', JStr '''')]])]"
  let ?h = "JObj [(''PostToolUse'', JArr [?g])]"
  have d: "dedupe_hooks ?hs = Inr ?rs" by code_simp
  have m: "merge_settings ?docs = Inr (JObj [(''hooks'', ?h)])" by code_simp
  have h: "lookup (JObj [(''hooks'', ?h)]) ''hooks'' = Some ?h"
    by (simp add: lookup_def dict_of_def)
  have l: "lookup ?h ''PostToolUse'' = Some (JArr [?g])" by (simp add: lookup_def dict_of_def)
  have g: "?g \<in> set [?g]" by simp
  have src: "gathered_hooks (matcher_of ?g) (hook_entries ''PostToolUse'' ?docs) =
               [JObj [(''command'', JStr '''')], JObj []]"
    by code_simp
  note inst = missing_command_is_empty_command
    [of ?hs ?rs ?docs "JObj [(''hooks'', ?h)]" ?h "''PostToolUse''" "[?g]" ?g]
  from inst d have one: "one_blank_command ?rs ?hs" by blast
  from inst m h l g have "one_blank_command (hooks_of ?g)
          (gathered_hooks (matcher_of ?g) (hook_entries ''PostToolUse'' ?docs))" by blast
  then have "one_blank_command [JObj [(''command'', JStr '''')]]
               [JObj [(''command'', JStr '''')], JObj []]"
    unfolding src by simp
  with d one m show ?thesis by blast
qed

end
